theory Spec2Isabelle
  imports Main "HOL-Library.AList"
begin

section \<open>JSON values\<close>

text \<open>
  \<^verbatim>\<open>getUpdatedPackageObject({source, log})\<close> (the split-storage variant, the last of the
  three in \<^verbatim>\<open>index.js\<close>) works on data that came out of \<^verbatim>\<open>JSON.parse\<close>. A string is a
  list of code units (the model carries the code units below 256); a number is carried as
  the decimal text JavaScript prints for it, which is both what \<^verbatim>\<open>JSON.stringify\<close> writes and
  what a property key made of the number reads. An object is the list of its own
  properties in the order \<^verbatim>\<open>Object.keys\<close> gives them.
\<close>

datatype json =
    JNull
  | JBool bool
  | JNum string
  | JStr string
  | JArr "json list"
  | JObj "(string \<times> json) list"

datatype js_error = TypeError

fun intercalate :: "string \<Rightarrow> string list \<Rightarrow> string" where
  "intercalate sep [] = []"
| "intercalate sep [x] = x"
| "intercalate sep (x # y # ys) = x @ sep @ intercalate sep (y # ys)"

subsection \<open>\<^verbatim>\<open>JSON.stringify\<close>\<close>

definition hex_digit :: "nat \<Rightarrow> char" where
  "hex_digit n = ''0123456789abcdef'' ! n"

definition quote_char :: "char \<Rightarrow> string" where
  "quote_char c =
     (if c = CHR 0x08 then [CHR 0x5C, CHR ''b'']
      else if c = CHR 0x09 then [CHR 0x5C, CHR ''t'']
      else if c = CHR 0x0A then [CHR 0x5C, CHR ''n'']
      else if c = CHR 0x0C then [CHR 0x5C, CHR ''f'']
      else if c = CHR 0x0D then [CHR 0x5C, CHR ''r'']
      else if c = CHR 0x22 then [CHR 0x5C, CHR 0x22]
      else if c = CHR 0x5C then [CHR 0x5C, CHR 0x5C]
      else if (of_char c :: nat) < 32
        then [CHR 0x5C, CHR ''u'', CHR ''0'', CHR ''0'',
              hex_digit (of_char c div 16), hex_digit (of_char c mod 16)]
      else [c])"

definition quote :: "string \<Rightarrow> string" where
  "quote s = [CHR 0x22] @ concat (map quote_char s) @ [CHR 0x22]"

fun stringify :: "json \<Rightarrow> string" where
  "stringify JNull = ''null''"
| "stringify (JBool b) = (if b then ''true'' else ''false'')"
| "stringify (JNum t) = t"
| "stringify (JStr s) = quote s"
| "stringify (JArr xs) = ''['' @ intercalate '','' (map stringify xs) @ '']''"
| "stringify (JObj kvs) =
     ''{'' @ intercalate '','' (map (\<lambda>(k, v). quote k @ '':'' @ stringify v) kvs) @ ''}''"

subsection \<open>Property access and property keys\<close>

text \<open>
  \<^verbatim>\<open>x.k\<close> for the property names this program reads (\<^verbatim>\<open>versionTracker\<close>, \<^verbatim>\<open>track\<close>,
  \<^verbatim>\<open>version\<close>, \<^verbatim>\<open>name\<close>, \<^verbatim>\<open>versionCommands\<close>): an object gives its own property, every
  other value but \<^verbatim>\<open>null\<close> gives \<^verbatim>\<open>undefined\<close> (here \<open>None\<close>); reading a property of
  \<^verbatim>\<open>null\<close> throws, which the callers below write out.
\<close>

definition get_prop :: "json \<Rightarrow> string \<Rightarrow> json option" where
  "get_prop x k = (case x of JObj kvs \<Rightarrow> map_of kvs k | _ \<Rightarrow> None)"

definition instanceof_Object :: "json \<Rightarrow> bool" where
  "instanceof_Object x = (case x of JObj _ \<Rightarrow> True | JArr _ \<Rightarrow> True | _ \<Rightarrow> False)"

text \<open>
  The conversion to a string that turns the value in
  \<^verbatim>\<open>executables[eachTrackable.name]\<close> into a property key. An array is joined with commas,
  \<^verbatim>\<open>null\<close> elements printing as nothing. An object prints as \<^verbatim>\<open>[object Object]\<close>, through
  the \<^verbatim>\<open>toString\<close> that every object inherits; an object with a property \<^verbatim>\<open>toString\<close> of
  its own has no such function (a property that came out of \<^verbatim>\<open>JSON.parse\<close> is never a
  function, and the inherited \<^verbatim>\<open>valueOf\<close> gives back the object), and the conversion
  throws a \<^verbatim>\<open>TypeError\<close>; so does the conversion of an array holding such an object.
\<close>

fun collect :: "('e + 'a) list \<Rightarrow> 'e + 'a list" where
  "collect [] = Inr []"
| "collect (x # xs) =
     (case x of
        Inl e \<Rightarrow> Inl e
      | Inr a \<Rightarrow> (case collect xs of Inl e \<Rightarrow> Inl e | Inr as \<Rightarrow> Inr (a # as)))"

fun to_string :: "json \<Rightarrow> js_error + string" where
  "to_string JNull = Inr ''null''"
| "to_string (JBool b) = Inr (if b then ''true'' else ''false'')"
| "to_string (JNum t) = Inr t"
| "to_string (JStr s) = Inr s"
| "to_string (JArr xs) =
     (case collect (map (\<lambda>x. if x = JNull then Inr [] else to_string x) xs) of
        Inl e \<Rightarrow> Inl e
      | Inr parts \<Rightarrow> Inr (intercalate '','' parts))"
| "to_string (JObj kvs) =
     (if ''toString'' \<in> set (map fst kvs) then Inl TypeError else Inr ''[object Object]'')"

definition property_key :: "json option \<Rightarrow> js_error + string" where
  "property_key x = (case x of None \<Rightarrow> Inr ''undefined'' | Some v \<Rightarrow> to_string v)"


section \<open>JavaScript objects as ordered property lists\<close>

text \<open>
  The own string keys of an ordinary object are enumerated (by \<^verbatim>\<open>Object.keys\<close>,
  \<^verbatim>\<open>JSON.stringify\<close> and the spread \<^verbatim>\<open>{...obj}\<close>) with the array indices first, in
  ascending numeric order, and then every other key in the order the properties were
  created. An array index is the canonical decimal text of an integer from 0 to
  \<open>2\<^sup>3\<^sup>2 - 2\<close>.
\<close>

definition is_digit :: "char \<Rightarrow> bool" where
  "is_digit c = (c \<in> set ''0123456789'')"

definition read_nat :: "string \<Rightarrow> nat" where
  "read_nat s = foldl (\<lambda>n c. 10 * n + (of_char c - 48)) 0 s"

function digits_of :: "nat \<Rightarrow> string" where
  "digits_of n =
     (if n < 10 then [''0123456789'' ! n]
      else digits_of (n div 10) @ [''0123456789'' ! (n mod 10)])"
  by pat_completeness auto
termination
  by (relation "measure id") auto

declare digits_of.simps [simp del]

definition is_array_index :: "string \<Rightarrow> bool" where
  "is_array_index s =
     (if s \<noteq> [] \<and> list_all is_digit s
      then read_nat s < 4294967295 \<and> digits_of (read_nat s) = s
      else False)"

type_synonym 'a js_object = "(string \<times> 'a) list"

fun insert_index :: "string \<Rightarrow> 'a \<Rightarrow> 'a js_object \<Rightarrow> 'a js_object" where
  "insert_index k v [] = [(k, v)]"
| "insert_index k v ((k', v') # rest) =
     (if is_array_index k' \<and> read_nat k' < read_nat k
      then (k', v') # insert_index k v rest
      else (k, v) # (k', v') # rest)"

text \<open>
  Writing the own property \<open>k\<close> of an object, as a property of an object literal with a
  computed key, a property that a spread copies, and an assignment \<^verbatim>\<open>obj[k] = v\<close> that
  no inherited setter takes: an existing property keeps its place and takes the new
  value; a new array index goes to its numeric place among the indices; any other new
  key goes last.
\<close>

definition js_put :: "string \<Rightarrow> 'a \<Rightarrow> 'a js_object \<Rightarrow> 'a js_object" where
  "js_put k v obj =
     (if k \<in> set (map fst obj) then AList.update k v obj
      else if is_array_index k then insert_index k v obj
      else obj @ [(k, v)])"

text \<open>\<^verbatim>\<open>delete obj[k]\<close>.\<close>

definition js_delete :: "string \<Rightarrow> 'a js_object \<Rightarrow> 'a js_object" where
  "js_delete k obj = AList.delete k obj"

text \<open>
  \<^verbatim>\<open>...src\<close> inside an object literal whose earlier properties are \<open>target\<close>: the
  properties of \<open>src\<close> are put one by one, in the order of its keys.
\<close>

definition js_spread :: "'a js_object \<Rightarrow> 'a js_object \<Rightarrow> 'a js_object" where
  "js_spread target src = foldl (\<lambda>obj (k, v). js_put k v obj) target src"

text \<open>
  The property lists that are the key order of some object: no key twice, every array
  index before every other key, the indices ascending.
\<close>

fun js_ordered_keys :: "string list \<Rightarrow> bool" where
  "js_ordered_keys [] = True"
| "js_ordered_keys (k # ks) =
     (k \<notin> set ks
      \<and> (if is_array_index k
         then (\<forall>k' \<in> set ks. is_array_index k' \<longrightarrow> read_nat k < read_nat k')
         else (\<forall>k' \<in> set ks. \<not> is_array_index k'))
      \<and> js_ordered_keys ks)"

definition js_ordered :: "'a js_object \<Rightarrow> bool" where
  "js_ordered obj = js_ordered_keys (map fst obj)"

subsection \<open>What an object inherits\<close>

text \<open>
  An object written \<^verbatim>\<open>{}\<close> or \<^verbatim>\<open>{...}\<close> has \<^verbatim>\<open>Object.prototype\<close> as its prototype, and
  reading \<^verbatim>\<open>obj[k]\<close> for a key that is not its own gives the member of that name the
  prototype has: a function for eleven names, the prototype itself for \<^verbatim>\<open>__proto__\<close>.
\<close>

definition inherited_members :: "string list" where
  "inherited_members =
     [''constructor'', ''__defineGetter__'', ''__defineSetter__'', ''hasOwnProperty'',
      ''__lookupGetter__'', ''__lookupSetter__'', ''isPrototypeOf'', ''propertyIsEnumerable'',
      ''toString'', ''valueOf'', ''__proto__'', ''toLocaleString'']"

text \<open>
  The assignment \<^verbatim>\<open>obj[k] = v\<close> on an object that began as \<^verbatim>\<open>{}\<close>, for a value \<open>v\<close>
  that is \<^verbatim>\<open>null\<close> or a string. The object is the list of its own properties together
  with whether it still has its prototype. For every key but \<^verbatim>\<open>__proto__\<close> the
  assignment writes the own property. For \<^verbatim>\<open>__proto__\<close>, when the object has no such
  property of its own, the assignment goes to the setter that the prototype provides: it
  creates no property; \<^verbatim>\<open>null\<close> becomes the prototype, a string is ignored. Once the
  prototype is \<^verbatim>\<open>null\<close> no setter is inherited, and the assignment creates the property
  \<^verbatim>\<open>__proto__\<close> like any other.
\<close>

type_synonym 'a plain_object = "'a js_object \<times> bool"

definition empty_object :: "'a plain_object" where
  "empty_object = ([], True)"

definition set_property :: "string \<Rightarrow> json \<Rightarrow> json plain_object \<Rightarrow> json plain_object" where
  "set_property k v obj =
     (case obj of
        (properties, has_prototype) \<Rightarrow>
          if k = ''__proto__'' \<and> k \<notin> set (map fst properties) \<and> has_prototype
          then (properties, v \<noteq> JNull)
          else (js_put k v properties, has_prototype))"


section \<open>Text of a command's output\<close>

text \<open>\<^verbatim>\<open>String.prototype.trim\<close>: white space and line terminators go from both ends.\<close>

definition is_space :: "char \<Rightarrow> bool" where
  "is_space c = (c \<in> set [CHR 0x09, CHR 0x0A, CHR 0x0B, CHR 0x0C, CHR 0x0D, CHR 0x20, CHR 0xA0])"

definition trim :: "string \<Rightarrow> string" where
  "trim s = rev (dropWhile is_space (rev (dropWhile is_space s)))"

subsection \<open>The pattern of the ANSI escape codes\<close>

text \<open>
  \<^verbatim>\<open>/[\u001b\u009b][[()#;?]*(?:[0-9]{1,4}(?:;[0-9]{0,4})*)?[0-9A-ORZcf-nqry=><]/g\<close>

  The matcher is the backtracking one of JavaScript. Each piece of the pattern maps the
  text at a position to the list of the texts that can remain after the piece, in the
  order the engine tries them (a greedy quantifier tries the longest first); the match
  is the first way through all the pieces.
\<close>

definition is_intro :: "char \<Rightarrow> bool" where
  "is_intro c = (c \<in> set [CHR 0x1B, CHR 0x9B])"

definition is_prefix_char :: "char \<Rightarrow> bool" where
  "is_prefix_char c = (c \<in> set ''[()#;?'')"

definition is_final :: "char \<Rightarrow> bool" where
  "is_final c = (c \<in> set ''0123456789ABCDEFGHIJKLMNORZcfghijklmnqry=><'')"

text \<open>\<^verbatim>\<open>[...]*\<close>: any number of characters of a class.\<close>

fun greedy_star :: "(char \<Rightarrow> bool) \<Rightarrow> string \<Rightarrow> string list" where
  "greedy_star p [] = [[]]"
| "greedy_star p (c # cs) = (if p c then greedy_star p cs @ [c # cs] else [c # cs])"

text \<open>\<^verbatim>\<open>[...]{0,n}\<close>: at most \<open>n\<close> characters of a class.\<close>

fun greedy_upto :: "(char \<Rightarrow> bool) \<Rightarrow> nat \<Rightarrow> string \<Rightarrow> string list" where
  "greedy_upto p 0 s = [s]"
| "greedy_upto p (Suc n) [] = [[]]"
| "greedy_upto p (Suc n) (c # cs) =
     (if p c then greedy_upto p n cs @ [c # cs] else [c # cs])"

text \<open>\<^verbatim>\<open>[0-9]{1,4}\<close>.\<close>

definition digits_1_4 :: "string \<Rightarrow> string list" where
  "digits_1_4 s =
     (case s of [] \<Rightarrow> [] | c # cs \<Rightarrow> if is_digit c then greedy_upto is_digit 3 cs else [])"

lemma greedy_upto_length:
  "r \<in> set (greedy_upto p n s) \<Longrightarrow> length r \<le> length s"
  by (induction p n s rule: greedy_upto.induct) (auto split: if_splits)

text \<open>\<^verbatim>\<open>(?:;[0-9]{0,4})*\<close>: one more group first, then none.\<close>

function semicolon_groups :: "string \<Rightarrow> string list" where
  "semicolon_groups s =
     (case s of
        [] \<Rightarrow> [s]
      | c # cs \<Rightarrow>
          if c = CHR '';''
          then concat (map semicolon_groups (greedy_upto is_digit 4 cs)) @ [s]
          else [s])"
  by pat_completeness auto
termination
  by (relation "measure length") (auto dest: greedy_upto_length)

declare semicolon_groups.simps [simp del]

text \<open>\<^verbatim>\<open>(?:[0-9]{1,4}(?:;[0-9]{0,4})*)?\<close>: the group first, then nothing.\<close>

definition parameters :: "string \<Rightarrow> string list" where
  "parameters s = concat (map semicolon_groups (digits_1_4 s)) @ [s]"

text \<open>
  The whole pattern at the start of \<open>s\<close>: the text after the match, or \<open>None\<close> when the
  pattern does not match there.
\<close>

definition ansi_match :: "string \<Rightarrow> string option" where
  "ansi_match s =
     (case s of
        [] \<Rightarrow> None
      | c # cs \<Rightarrow>
          if is_intro c
          then (case filter (\<lambda>r. r \<noteq> [] \<and> is_final (hd r))
                       (concat (map parameters (greedy_star is_prefix_char cs))) of
                  [] \<Rightarrow> None
                | r # _ \<Rightarrow> Some (tl r))
          else None)"


lemma greedy_star_length:
  "r \<in> set (greedy_star p s) \<Longrightarrow> length r \<le> length s"
  by (induction p s rule: greedy_star.induct) (auto split: if_splits)

lemma semicolon_groups_length:
  "r \<in> set (semicolon_groups s) \<Longrightarrow> length r \<le> length s"
proof (induction s arbitrary: r rule: semicolon_groups.induct)
  case (1 s)
  show ?case
  proof (cases s)
    case Nil
    with "1.prems" show ?thesis by (simp add: semicolon_groups.simps)
  next
    case (Cons c cs)
    show ?thesis
    proof (cases "c = CHR '';''")
      case False
      with Cons "1.prems" show ?thesis by (simp add: semicolon_groups.simps)
    next
      case True
      from "1.prems" Cons True
      consider "r = s" | t where "t \<in> set (greedy_upto is_digit 4 cs)" "r \<in> set (semicolon_groups t)"
        by (auto simp: semicolon_groups.simps)
      then show ?thesis
      proof cases
        case 1
        then show ?thesis by simp
      next
        case 2
        from "1.IH" [OF Cons True 2(1) 2(2)] greedy_upto_length [OF 2(1)] Cons
        show ?thesis by simp
      qed
    qed
  qed
qed

lemma parameters_length:
  "r \<in> set (parameters s) \<Longrightarrow> length r \<le> length s"
  by (cases s)
     (auto simp: parameters_def digits_1_4_def split: if_splits
           dest!: semicolon_groups_length greedy_upto_length)

lemma ansi_match_shorter:
  assumes "ansi_match s = Some r"
  shows "length r < length s"
proof -
  from assms obtain c cs where s: "s = c # cs"
    by (cases s) (auto simp: ansi_match_def)
  from assms s obtain x xs where
    f: "filter (\<lambda>r. r \<noteq> [] \<and> is_final (hd r))
          (concat (map parameters (greedy_star is_prefix_char cs))) = x # xs"
    and r: "r = tl x"
    by (auto simp: ansi_match_def split: if_splits list.splits)
  from f have "x \<in> set (filter (\<lambda>r. r \<noteq> [] \<and> is_final (hd r))
          (concat (map parameters (greedy_star is_prefix_char cs))))"
    by simp
  then obtain t where "t \<in> set (greedy_star is_prefix_char cs)" "x \<in> set (parameters t)"
    by auto
  then have "length x \<le> length cs"
    using greedy_star_length parameters_length by (meson le_trans)
  with r s show ?thesis by simp
qed

text \<open>
  \<^verbatim>\<open>output.replace(pattern, "")\<close> with the \<^verbatim>\<open>g\<close> flag: from left to right, a match is
  dropped and the search goes on after it; where the pattern does not match, the
  character stays.
\<close>

function strip_ansi :: "string \<Rightarrow> string" where
  "strip_ansi s =
     (case s of
        [] \<Rightarrow> []
      | c # cs \<Rightarrow>
          (case ansi_match s of
             Some r \<Rightarrow> strip_ansi r
           | None \<Rightarrow> c # strip_ansi cs))"
  by pat_completeness auto
termination
  by (relation "measure length") (auto dest: ansi_match_shorter)

declare strip_ansi.simps [simp del]


section \<open>Probing the tracked executables\<close>

text \<open>
  What \<^verbatim>\<open>spawnSync(command, args)\<close> returns: \<^verbatim>\<open>status\<close> is the exit code, or \<^verbatim>\<open>null\<close>
  (\<open>None\<close>) when the process could not be started or was killed; \<^verbatim>\<open>stdout\<close> and
  \<^verbatim>\<open>stderr\<close> are buffers (here already as the text \<^verbatim>\<open>toString()\<close> gives), or \<^verbatim>\<open>null\<close>.
\<close>

record spawn_result =
  status :: "int option"
  stdout :: "string option"
  stderr :: "string option"

text \<open>
  The machine the program runs on is a parameter: a \<open>spawner\<close> answers each call of
  \<^verbatim>\<open>spawnSync\<close>, with a result or with the exception the call throws (Node throws a
  \<^verbatim>\<open>TypeError\<close> for a command that is not a non-empty string). The model records every
  call it makes, oldest first, so that which commands were run can be read off.
\<close>

type_synonym spawn_call = "json option \<times> json list"

type_synonym spawner = "json option \<Rightarrow> json list \<Rightarrow> js_error + spawn_result"

text \<open>Lines 474-480: the trimmed standard output followed by the trimmed standard error.\<close>

definition combined_output :: "spawn_result \<Rightarrow> string" where
  "combined_output result =
     (case stdout result of Some out \<Rightarrow> trim out | None \<Rightarrow> [])
     @ (case stderr result of Some err \<Rightarrow> trim err | None \<Rightarrow> [])"

text \<open>
  \<^verbatim>\<open>let [ command, ...args ] = eachCommand\<close>: an empty array leaves \<^verbatim>\<open>command\<close> undefined.
\<close>

definition destructure :: "json list \<Rightarrow> spawn_call" where
  "destructure eachCommand =
     (case eachCommand of [] \<Rightarrow> (None, []) | command # args \<Rightarrow> (Some command, args))"

text \<open>
  Lines 465-488, \<^verbatim>\<open>for (let eachCommand of eachTrackable.versionCommands)\<close>, on the
  \<^verbatim>\<open>executables\<close> object and the calls made so far. \<open>name\<close> is the property key
  \<^verbatim>\<open>eachTrackable.name\<close>. A status other than 0 (\<^verbatim>\<open>null\<close> too) goes on to the next
  command; so does a status of 0, with or without output: there is no \<^verbatim>\<open>break\<close> in the
  loop. The output is tested for emptiness on line 481, before line 483 removes the
  escape codes; line 485 assigns what is left.
\<close>

fun eachCommand_loop ::
  "spawner \<Rightarrow> string \<Rightarrow> json list \<Rightarrow> json plain_object \<times> spawn_call list
     \<Rightarrow> js_error + (json plain_object \<times> spawn_call list)" where
  "eachCommand_loop spawnSync name [] (executables, calls) = Inr (executables, calls)"
| "eachCommand_loop spawnSync name (eachCommand # rest) (executables, calls) =
     (case eachCommand of
        JArr xs \<Rightarrow>
          (case spawnSync (fst (destructure xs)) (snd (destructure xs)) of
             Inl e \<Rightarrow> Inl e
           | Inr result \<Rightarrow>
               if status result \<noteq> Some 0
               then eachCommand_loop spawnSync name rest
                      (executables, calls @ [destructure xs])
               else if length (combined_output result) > 0
               then eachCommand_loop spawnSync name rest
                      (set_property name (JStr (strip_ansi (combined_output result)))
                         executables,
                       calls @ [destructure xs])
               else eachCommand_loop spawnSync name rest
                      (executables, calls @ [destructure xs]))
      | _ \<Rightarrow> eachCommand_loop spawnSync name rest (executables, calls))"

text \<open>
  The first variant in the file has the same loop (lines 59-82) with another test on
  line 60, \<^verbatim>\<open>eachCommand.versionCommands instanceof Array\<close>. A command that is an array
  has no such property and is skipped; an object that has it cannot be destructured as
  a list, and line 61 throws. No command is ever run there.
\<close>

fun eachCommand_loop_first_variant ::
  "spawner \<Rightarrow> string \<Rightarrow> json list \<Rightarrow> json plain_object \<times> spawn_call list
     \<Rightarrow> js_error + (json plain_object \<times> spawn_call list)" where
  "eachCommand_loop_first_variant spawnSync name [] (executables, calls) =
     Inr (executables, calls)"
| "eachCommand_loop_first_variant spawnSync name (eachCommand # rest) (executables, calls) =
     (if eachCommand = JNull then Inl TypeError
      else case get_prop eachCommand ''versionCommands'' of
             Some (JArr versionCommands) \<Rightarrow> Inl TypeError
           | _ \<Rightarrow> eachCommand_loop_first_variant spawnSync name rest (executables, calls))"

text \<open>
  Lines 462-490, \<^verbatim>\<open>for (let eachTrackable of source.versionTracker.track)\<close>. Reading
  \<^verbatim>\<open>eachTrackable.name\<close> throws when the trackable is \<^verbatim>\<open>null\<close>, and line 463 throws when
  the name cannot be made a property key. Otherwise line 463 assigns \<^verbatim>\<open>null\<close> under the
  trackable's name.
\<close>

fun eachTrackable_loop ::
  "spawner \<Rightarrow> json list \<Rightarrow> json plain_object \<times> spawn_call list
     \<Rightarrow> js_error + (json plain_object \<times> spawn_call list)" where
  "eachTrackable_loop spawnSync [] (executables, calls) = Inr (executables, calls)"
| "eachTrackable_loop spawnSync (eachTrackable # rest) (executables, calls) =
     (if eachTrackable = JNull then Inl TypeError
      else
        (case property_key (get_prop eachTrackable ''name'') of
           Inl e \<Rightarrow> Inl e
         | Inr name \<Rightarrow>
             (let executables' = set_property name JNull executables
              in case get_prop eachTrackable ''versionCommands'' of
                   Some (JArr versionCommands) \<Rightarrow>
                     (case eachCommand_loop spawnSync name versionCommands
                             (executables', calls) of
                        Inl e \<Rightarrow> Inl e
                      | Inr st \<Rightarrow> eachTrackable_loop spawnSync rest st)
                 | _ \<Rightarrow> eachTrackable_loop spawnSync rest (executables', calls))))"

section \<open>Merging the entry into the log\<close>

text \<open>
  The log maps a project version to the array of its build records. The buckets are
  arrays, as the program's own output always is.
\<close>

type_synonym build_log = "json list js_object"

definition bucket_of :: "build_log \<Rightarrow> string \<Rightarrow> json list" where
  "bucket_of successfulBuilds projectVersion =
     (case map_of successfulBuilds projectVersion of Some entries \<Rightarrow> entries | None \<Rightarrow> [])"

text \<open>
  Lines 494-515. \<^verbatim>\<open>{...log}\<close> copies the log. Line 496 reads
  \<^verbatim>\<open>successfulBuilds[projectVersion]\<close> and creates an empty bucket when that is
  \<^verbatim>\<open>undefined\<close>. For a version that the log does not hold and that is the name of an
  inherited member, the read gives that member: no bucket is created, the member has no
  \<^verbatim>\<open>map\<close>, and line 497 throws a \<^verbatim>\<open>TypeError\<close>. Otherwise lines 498-510 put a new entry
  in front of the bucket and rebuild the object with the version written first, and
  lines 512-515 rebuild the object once more with the version written first, whether or
  not the entry was new.
\<close>

definition merge :: "build_log \<Rightarrow> string \<Rightarrow> json \<Rightarrow> js_error + build_log" where
  "merge log projectVersion versionEntry =
     (let entryAsString = stringify versionEntry;
          successfulBuilds = js_spread [] log
      in if projectVersion \<notin> set (map fst successfulBuilds)
            \<and> projectVersion \<in> set inherited_members
         then Inl TypeError
         else
           (let successfulBuilds' =
                  (if projectVersion \<in> set (map fst successfulBuilds) then successfulBuilds
                   else js_put projectVersion [] successfulBuilds);
                entriesAsStrings = map stringify (bucket_of successfulBuilds' projectVersion);
                successfulBuilds'' =
                  (if entryAsString \<notin> set entriesAsStrings
                   then (let currentVerisonEntries =
                               versionEntry # bucket_of successfulBuilds' projectVersion
                         in js_spread [(projectVersion, currentVerisonEntries)]
                              (js_delete projectVersion successfulBuilds'))
                   else successfulBuilds')
            in Inr (js_spread [(projectVersion, bucket_of successfulBuilds'' projectVersion)]
                      successfulBuilds'')))"

section \<open>\<^verbatim>\<open>getUpdatedPackageObject\<close>\<close>

definition defaultTrackingInfo :: "json list" where
  "defaultTrackingInfo =
     [JObj [(''name'', JStr ''node''),
            (''versionCommands'', JArr [JArr [JStr ''node'', JStr ''--version'']])],
      JObj [(''name'', JStr ''npm''),
            (''versionCommands'', JArr [JArr [JStr ''npm'', JStr ''-v'']])],
      JObj [(''name'', JStr ''git''),
            (''versionCommands'', JArr [JArr [JStr ''git'', JStr ''--version'']])]]"

text \<open>
  Lines 447-453. A \<^verbatim>\<open>versionTracker\<close> that is not an object is replaced by \<^verbatim>\<open>{}\<close>, a
  \<^verbatim>\<open>track\<close> that is not an array by the default list, a \<^verbatim>\<open>version\<close> that is not a string
  by \<^verbatim>\<open>"0.0.0"\<close>.
\<close>

definition track_of :: "json \<Rightarrow> json list" where
  "track_of source =
     (let versionTracker =
            (case get_prop source ''versionTracker'' of
               Some vt \<Rightarrow> if instanceof_Object vt then vt else JObj []
             | None \<Rightarrow> JObj [])
      in case get_prop versionTracker ''track'' of
           Some (JArr track) \<Rightarrow> track
         | _ \<Rightarrow> defaultTrackingInfo)"

definition version_of :: "json \<Rightarrow> string" where
  "version_of source =
     (case get_prop source ''version'' of Some (JStr version) \<Rightarrow> version | _ \<Rightarrow> ''0.0.0'')"

text \<open>Lines 457-460 and 485: the entry, \<^verbatim>\<open>platform\<close> first.\<close>

definition versionEntry_of :: "string \<Rightarrow> json js_object \<Rightarrow> json" where
  "versionEntry_of platform executables =
     JObj [(''platform'', JStr platform), (''executables'', JObj executables)]"

text \<open>
  The function, lines 438-517, with \<^verbatim>\<open>process.platform\<close> and the machine as parameters.
  It gives the new log and the commands that were run, or the exception. The
  \<^verbatim>\<open>executables\<close> of the entry start as \<^verbatim>\<open>{}\<close>, and the entry holds the properties the
  loop has left there. The copy
  \<^verbatim>\<open>JSON.parse(JSON.stringify(source))\<close> is the identity on JSON values. A \<^verbatim>\<open>source\<close> that
  is not an object cannot hold the \<^verbatim>\<open>versionTracker\<close> that line 447 assigns, and line 448
  throws. The other half of the result, \<^verbatim>\<open>newSource\<close>, is not modelled.
\<close>

definition getUpdatedPackageObject ::
  "string \<Rightarrow> spawner \<Rightarrow> json \<Rightarrow> build_log \<Rightarrow> js_error + (build_log \<times> spawn_call list)" where
  "getUpdatedPackageObject platform spawnSync source log =
     (if \<not> instanceof_Object source then Inl TypeError
      else
        (let track = track_of source;
             projectVersion = version_of source
         in case eachTrackable_loop spawnSync track (empty_object, []) of
              Inl e \<Rightarrow> Inl e
            | Inr ((executables, has_prototype), calls) \<Rightarrow>
                (case merge log projectVersion (versionEntry_of platform executables) of
                   Inl e \<Rightarrow> Inl e
                 | Inr newLog \<Rightarrow> Inr (newLog, calls))))"


section \<open>Notions the properties are stated with\<close>

text \<open>
  The spec's \<^verbatim>\<open>probe(trackable)\<close>: what the loop leaves in \<^verbatim>\<open>executables\<close> under the
  trackable's name when it runs on that trackable alone.
\<close>

definition probe :: "spawner \<Rightarrow> json \<Rightarrow> js_error + json option" where
  "probe spawnSync trackable =
     (case eachTrackable_loop spawnSync [trackable] (empty_object, []) of
        Inl e \<Rightarrow> Inl e
      | Inr ((executables, has_prototype), calls) \<Rightarrow>
          (case property_key (get_prop trackable ''name'') of
             Inl e \<Rightarrow> Inl e
           | Inr name \<Rightarrow> Inr (map_of executables name)))"

text \<open>The candidate commands of a trackable: none when \<^verbatim>\<open>versionCommands\<close> is not an array.\<close>

definition candidates_of :: "json \<Rightarrow> json list" where
  "candidates_of trackable =
     (case get_prop trackable ''versionCommands'' of
        Some (JArr versionCommands) \<Rightarrow> versionCommands
      | _ \<Rightarrow> [])"

text \<open>
  A candidate as the loop treats it: it is run when it is an array; the call may throw;
  it succeeds when the status is 0 and the combined output is not empty (as it is before
  the escape codes are removed); its version text is the output without the escape codes.
\<close>

definition throws :: "spawner \<Rightarrow> json \<Rightarrow> bool" where
  "throws spawnSync eachCommand =
     (case eachCommand of
        JArr xs \<Rightarrow> (case spawnSync (fst (destructure xs)) (snd (destructure xs)) of
                     Inl e \<Rightarrow> True | Inr result \<Rightarrow> False)
      | _ \<Rightarrow> False)"

definition succeeds :: "spawner \<Rightarrow> json \<Rightarrow> bool" where
  "succeeds spawnSync eachCommand =
     (case eachCommand of
        JArr xs \<Rightarrow> (case spawnSync (fst (destructure xs)) (snd (destructure xs)) of
                     Inl e \<Rightarrow> False
                   | Inr result \<Rightarrow> status result = Some 0 \<and> combined_output result \<noteq> [])
      | _ \<Rightarrow> False)"

definition version_text :: "spawner \<Rightarrow> json \<Rightarrow> string" where
  "version_text spawnSync eachCommand =
     (case eachCommand of
        JArr xs \<Rightarrow> (case spawnSync (fst (destructure xs)) (snd (destructure xs)) of
                     Inl e \<Rightarrow> []
                   | Inr result \<Rightarrow> strip_ansi (combined_output result))
      | _ \<Rightarrow> [])"

definition calls_of :: "json list \<Rightarrow> spawn_call list" where
  "calls_of versionCommands =
     concat (map (\<lambda>eachCommand. case eachCommand of JArr xs \<Rightarrow> [destructure xs] | _ \<Rightarrow> [])
               versionCommands)"

text \<open>
  An entry is already in a bucket when one of the bucket's entries has the same
  \<^verbatim>\<open>JSON.stringify\<close> text (line 498).
\<close>

definition already_logged :: "json \<Rightarrow> json list \<Rightarrow> bool" where
  "already_logged versionEntry entries =
     (stringify versionEntry \<in> set (map stringify entries))"

text \<open>The array indices among the keys of an object, and the other keys.\<close>

definition index_part :: "'a js_object \<Rightarrow> 'a js_object" where
  "index_part obj = filter (\<lambda>(k, v). is_array_index k) obj"

definition named_part :: "'a js_object \<Rightarrow> 'a js_object" where
  "named_part obj = filter (\<lambda>(k, v). \<not> is_array_index k) obj"

text \<open>
  The versions whose bucket line 496 can read: the keys of the log, and every string
  that is not the name of an inherited member.
\<close>

definition bucket_readable :: "build_log \<Rightarrow> string \<Rightarrow> bool" where
  "bucket_readable log projectVersion =
     (projectVersion \<in> set (map fst log) \<or> projectVersion \<notin> set inherited_members)"

text \<open>No bucket of the log holds two entries with the same serialized text.\<close>

definition no_equal_texts :: "build_log \<Rightarrow> bool" where
  "no_equal_texts log = (\<forall>(version, entries) \<in> set log. distinct (map stringify entries))"

text \<open>
  The equality of build records that the specification speaks of: the same platform,
  and the same executables as a map, whatever the order of the keys. A bucket holds
  equal records when one of its records equals a later one; a log holds none when no
  bucket does.
\<close>

definition same_properties :: "'a js_object \<Rightarrow> 'a js_object \<Rightarrow> bool" where
  "same_properties xs ys =
     (set (map fst xs) = set (map fst ys)
      \<and> (\<forall>k \<in> set (map fst xs). map_of xs k = map_of ys k))"

definition same_record :: "json \<Rightarrow> json \<Rightarrow> bool" where
  "same_record a b =
     (get_prop a ''platform'' = get_prop b ''platform''
      \<and> (case (get_prop a ''executables'', get_prop b ''executables'') of
           (Some (JObj xs), Some (JObj ys)) \<Rightarrow> same_properties xs ys
         | (x, y) \<Rightarrow> x = y))"

fun holds_equal_records :: "json list \<Rightarrow> bool" where
  "holds_equal_records [] = False"
| "holds_equal_records (x # xs) = ((\<exists>y \<in> set xs. same_record x y) \<or> holds_equal_records xs)"

definition no_equal_records :: "build_log \<Rightarrow> bool" where
  "no_equal_records log = (\<forall>(version, entries) \<in> set log. \<not> holds_equal_records entries)"


section \<open>Sample data\<close>

text \<open>Two build records of one machine, and the same tools listed in two orders.\<close>

definition entry_A :: json where
  "entry_A = versionEntry_of ''linux'' [(''git'', JStr ''git version 2.34.1'')]"

definition entry_B :: json where
  "entry_B = versionEntry_of ''linux'' [(''git'', JStr ''git version 2.39.2'')]"

definition entry_node_npm :: json where
  "entry_node_npm = versionEntry_of ''linux'' [(''node'', JStr ''v18.0.0''), (''npm'', JStr ''8.6.0'')]"

definition entry_npm_node :: json where
  "entry_npm_node = versionEntry_of ''linux'' [(''npm'', JStr ''8.6.0''), (''node'', JStr ''v18.0.0'')]"


text \<open>
  A trackable with two candidate commands, on a machine where both commands work; a
  trackable with one command, on a machine where the command prints nothing but a colour
  reset, and on a machine where no command can be started.
\<close>

definition python_trackable :: json where
  "python_trackable =
     JObj [(''name'', JStr ''python''),
           (''versionCommands'',
            JArr [JArr [JStr ''python3'', JStr ''--version''],
                  JArr [JStr ''python'', JStr ''--version'']])]"

definition two_pythons :: spawner where
  "two_pythons command args =
     (if command = Some (JStr ''python3'')
      then Inr \<lparr>status = Some 0, stdout = Some (''Python 3.10.4'' @ [CHR 0x0A]), stderr = Some []\<rparr>
      else if command = Some (JStr ''python'')
      then Inr \<lparr>status = Some 0, stdout = Some (''Python 2.7.18'' @ [CHR 0x0A]), stderr = Some []\<rparr>
      else Inr \<lparr>status = None, stdout = None, stderr = None\<rparr>)"

definition tool_trackable :: json where
  "tool_trackable =
     JObj [(''name'', JStr ''tool''), (''versionCommands'', JArr [JArr [JStr ''tool'']])]"

definition colour_reset :: spawn_result where
  "colour_reset = \<lparr>status = Some 0, stdout = Some (CHR 0x1B # ''[0m'' @ [CHR 0x0A]), stderr = Some []\<rparr>"

definition colour_only :: spawner where
  "colour_only command args = Inr colour_reset"

definition nothing_installed :: spawner where
  "nothing_installed command args = Inr \<lparr>status = None, stdout = None, stderr = None\<rparr>"

definition named_only :: json where
  "named_only = JObj [(''name'', JStr ''git'')]"

definition proto_named :: json where
  "proto_named = JObj [(''name'', JStr ''__proto__'')]"

definition commands_only :: "(string \<times> json) list" where
  "commands_only = [(''versionCommands'', JArr [JArr [JStr ''tool'']])]"

section \<open>The key order of objects\<close>

lemma array_index_inj:
  assumes "is_array_index a" "is_array_index b" "read_nat a = read_nat b"
  shows "a = b"
proof -
  have d: "digits_of (read_nat s) = s" if "is_array_index s" for s
    using that unfolding is_array_index_def by (cases "s \<noteq> [] \<and> list_all is_digit s") simp_all
  from d [OF assms(1)] d [OF assms(2)] assms(3) show ?thesis by metis
qed

lemma set_insert_index:
  "set (insert_index k v obj) = insert (k, v) (set obj)"
  by (induction obj) (auto split: if_splits)

lemma keys_insert_index:
  "fst ` set (insert_index k v obj) = insert k (fst ` set obj)"
  by (simp add: set_insert_index)

lemma insert_index_append:
  "\<forall>k' \<in> set (map fst xs). is_array_index k' \<and> read_nat k' < read_nat k \<Longrightarrow>
   insert_index k v (xs @ ys) = xs @ insert_index k v ys"
  by (induction xs) auto

lemma insert_index_snoc_stop:
  "\<not> (is_array_index k' \<and> read_nat k' < read_nat k) \<Longrightarrow>
   insert_index k v (xs @ [(k', v')]) = insert_index k v xs @ [(k', v')]"
  by (induction xs) auto

lemma js_ordered_keys_snoc:
  "js_ordered_keys (ks @ [k]) \<longleftrightarrow>
     js_ordered_keys ks \<and> k \<notin> set ks \<and>
     (is_array_index k \<longrightarrow> (\<forall>k' \<in> set ks. is_array_index k' \<and> read_nat k' < read_nat k))"
  by (induction ks) auto

lemma js_ordered_snoc:
  "js_ordered (xs @ [(k, v)]) \<longleftrightarrow>
     js_ordered xs \<and> k \<notin> set (map fst xs) \<and>
     (is_array_index k \<longrightarrow>
        (\<forall>k' \<in> set (map fst xs). is_array_index k' \<and> read_nat k' < read_nat k))"
  by (simp add: js_ordered_def js_ordered_keys_snoc)

lemma js_put_snoc:
  assumes "js_ordered (xs @ [(k, v)])"
  shows "js_put k v xs = xs @ [(k, v)]"
proof (cases "is_array_index k")
  case True
  with assms have "\<forall>k' \<in> set (map fst xs). is_array_index k' \<and> read_nat k' < read_nat k"
    and "k \<notin> set (map fst xs)"
    by (simp_all add: js_ordered_snoc)
  with True insert_index_append [of xs k v "[]"] show ?thesis
    by (simp add: js_put_def)
next
  case False
  with assms show ?thesis by (simp add: js_put_def js_ordered_snoc)
qed

lemma js_spread_snoc:
  "js_spread t (xs @ [(k, v)]) = js_put k v (js_spread t xs)"
  by (simp add: js_spread_def)

lemma js_spread_copy:
  "js_ordered obj \<Longrightarrow> js_spread [] obj = obj"
proof (induction obj rule: rev_induct)
  case Nil
  show ?case by (simp add: js_spread_def)
next
  case (snoc x xs)
  obtain k v where x: "x = (k, v)" by (cases x)
  from snoc.prems x have "js_ordered xs" by (simp add: js_ordered_snoc)
  with snoc.IH have "js_spread [] xs = xs" by simp
  with snoc.prems x show ?case by (simp add: js_spread_snoc js_put_snoc)
qed

lemma js_ordered_keys_filter:
  "js_ordered_keys ks \<Longrightarrow> js_ordered_keys (filter P ks)"
  by (induction ks) auto

lemma js_ordered_delete:
  "js_ordered obj \<Longrightarrow> js_ordered (js_delete k obj)"
proof -
  have "map fst (AList.delete k obj) = filter (\<lambda>k'. k' \<noteq> k) (map fst obj)"
    by (induction obj) auto
  then show "js_ordered obj \<Longrightarrow> js_ordered (js_delete k obj)"
    by (simp add: js_ordered_def js_delete_def js_ordered_keys_filter)
qed

lemma js_ordered_insert_index:
  assumes "js_ordered obj" "k \<notin> fst ` set obj" "is_array_index k"
  shows "js_ordered (insert_index k v obj)"
  using assms(1,2)
proof (induction obj)
  case Nil
  then show ?case by (simp add: js_ordered_def)
next
  case (Cons a obj)
  obtain k' v' where a: "a = (k', v')" by (cases a)
  from Cons.prems a have ord: "js_ordered_keys (k' # map fst obj)" and kk': "k \<noteq> k'"
    and knew: "k \<notin> fst ` set obj"
    by (auto simp: js_ordered_def)
  show ?case
  proof (cases "is_array_index k' \<and> read_nat k' < read_nat k")
    case True
    from ord have "js_ordered obj" by (simp add: js_ordered_def)
    with Cons.IH knew have "js_ordered_keys (map fst (insert_index k v obj))"
      by (simp add: js_ordered_def)
    moreover from ord kk' have "k' \<notin> fst ` set (insert_index k v obj)"
      by (simp add: keys_insert_index)
    moreover from ord True
    have "\<forall>k'' \<in> fst ` set (insert_index k v obj). is_array_index k'' \<longrightarrow> read_nat k' < read_nat k''"
      by (simp add: keys_insert_index)
    ultimately show ?thesis using True a by (simp add: js_ordered_def)
  next
    case False
    have "read_nat k < read_nat k''" if "k'' \<in> set (k' # map fst obj)" "is_array_index k''" for k''
    proof (cases "k'' = k'")
      case True
      with that False have "read_nat k \<le> read_nat k'" by simp
      moreover from array_index_inj [OF assms(3)] that True kk' have "read_nat k \<noteq> read_nat k'"
        by blast
      ultimately show ?thesis using True by simp
    next
      case ne: False
      with that have mem: "k'' \<in> set (map fst obj)" by simp
      show ?thesis
      proof (cases "is_array_index k'")
        case True
        with ord mem that have "read_nat k' < read_nat k''" by auto
        moreover from True False have "read_nat k \<le> read_nat k'" by simp
        ultimately show ?thesis by simp
      next
        case False
        with ord mem that show ?thesis by auto
      qed
    qed
    with ord kk' knew assms(3) False a show ?thesis
      by (simp add: js_ordered_def)
  qed
qed

lemma js_ordered_put:
  assumes "js_ordered obj"
  shows "js_ordered (js_put k v obj)"
proof -
  consider "k \<in> fst ` set obj" | "k \<notin> fst ` set obj" "is_array_index k"
    | "k \<notin> fst ` set obj" "\<not> is_array_index k" by blast
  then show ?thesis
  proof cases
    case 1
    then show ?thesis using assms by (simp add: js_put_def js_ordered_def update_keys)
  next
    case 2
    then show ?thesis using assms by (simp add: js_put_def js_ordered_insert_index)
  next
    case 3
    then show ?thesis using assms by (simp add: js_put_def js_ordered_snoc)
  qed
qed

lemma js_ordered_spread:
  "js_ordered t \<Longrightarrow> js_ordered (js_spread t src)"
  by (induction src rule: rev_induct) (auto simp: js_spread_snoc js_ordered_put js_spread_def)


subsection \<open>An object literal that writes one key and then spreads an object\<close>

lemma update_at:
  "k \<notin> fst ` set xs \<Longrightarrow> AList.update k v (xs @ (k, u) # ys) = xs @ (k, v) # ys"
  by (induction xs) auto

lemma delete_absent:
  "k \<notin> fst ` set xs \<Longrightarrow> AList.delete k xs = xs"
  by (induction xs) auto

lemma js_put_new_named:
  "k \<notin> fst ` set obj \<Longrightarrow> \<not> is_array_index k \<Longrightarrow> js_put k w obj = obj @ [(k, w)]"
  by (simp add: js_put_def)

lemma js_put_new_index:
  "k \<notin> fst ` set obj \<Longrightarrow> is_array_index k \<Longrightarrow> js_put k w obj = insert_index k w obj"
  by (simp add: js_put_def)

lemma js_put_old:
  "k \<in> fst ` set obj \<Longrightarrow> js_put k w obj = AList.update k w obj"
  by (simp add: js_put_def)

lemma all_index_parts:
  assumes "\<forall>k' \<in> fst ` set xs. is_array_index k'"
  shows "index_part xs = xs" and "named_part xs = []"
  using assms by (induction xs) (auto simp: index_part_def named_part_def)

lemma spread_front_named:
  assumes "\<not> is_array_index v" "js_ordered obj"
  shows "js_spread [(v, x)] obj =
           index_part obj @ (v, case map_of obj v of Some y \<Rightarrow> y | None \<Rightarrow> x)
             # AList.delete v (named_part obj)"
  using assms(2)
proof (induction obj rule: rev_induct)
  case Nil
  show ?case by (simp add: js_spread_def index_part_def named_part_def)
next
  case (snoc a xs)
  obtain k w where a: "a = (k, w)" by (cases a)
  from snoc.prems a have ord: "js_ordered xs" and knew: "k \<notin> fst ` set xs"
    and small: "is_array_index k \<Longrightarrow> \<forall>k' \<in> fst ` set xs. is_array_index k' \<and> read_nat k' < read_nat k"
    by (auto simp: js_ordered_snoc)
  let ?y = "case map_of xs v of Some y \<Rightarrow> y | None \<Rightarrow> x"
  let ?A = "index_part xs @ (v, ?y) # AList.delete v (named_part xs)"
  from snoc.IH ord have IH: "js_spread [(v, x)] xs = ?A" by simp
  have keysA: "fst ` set ?A = insert v (fst ` set xs)"
    by (auto simp: index_part_def named_part_def AList.delete_eq image_iff)
  show ?case
  proof (cases "is_array_index k")
    case True
    from small [OF True] have allidx: "\<forall>k' \<in> fst ` set xs. is_array_index k'" by blast
    with assms(1) have vnew: "v \<notin> fst ` set xs" by blast
    then have mv: "map_of xs v = None" by (simp add: map_of_eq_None_iff)
    from True assms(1) have kv: "k \<noteq> v" by blast
    from all_index_parts [OF allidx] mv have A: "?A = xs @ [(v, x)]" by simp
    from small [OF True] have "insert_index k w (xs @ [(v, x)]) = xs @ insert_index k w [(v, x)]"
      by (intro insert_index_append) simp
    with assms(1) have ins: "insert_index k w (xs @ [(v, x)]) = xs @ [(k, w), (v, x)]" by simp
    from knew kv True ins have "js_put k w (xs @ [(v, x)]) = xs @ [(k, w), (v, x)]"
      by (simp add: js_put_def)
    moreover from allidx True have "index_part (xs @ [(k, w)]) = xs @ [(k, w)]"
      and "named_part (xs @ [(k, w)]) = []"
      by (simp_all add: all_index_parts)
    moreover from mv kv
    have "(case map_of (xs @ [(k, w)]) v of Some y \<Rightarrow> y | None \<Rightarrow> x) = x"
      by (simp add: map_add_def)
    ultimately show ?thesis using a IH A by (simp add: js_spread_snoc)
  next
    case False
    show ?thesis
    proof (cases "k = v")
      case True
      with knew have mv: "map_of xs v = None" by (simp add: map_of_eq_None_iff)
      have vidx: "v \<notin> fst ` set (index_part xs)"
        using assms(1) by (auto simp: index_part_def)
      from True knew have "v \<notin> fst ` set (named_part xs)"
        by (auto simp: named_part_def)
      then have del: "AList.delete v (named_part xs) = named_part xs" by (rule delete_absent)
      from keysA have "v \<in> fst ` set ?A" by blast
      from js_put_old [OF this] update_at [OF vidx] True
      have "js_put k w ?A = index_part xs @ (v, w) # AList.delete v (named_part xs)"
        by simp
      moreover from True False have "index_part (xs @ [(k, w)]) = index_part xs"
        and "named_part (xs @ [(k, w)]) = named_part xs @ [(v, w)]"
        by (simp_all add: index_part_def named_part_def)
      moreover from mv True
      have "(case map_of (xs @ [(k, w)]) v of Some y \<Rightarrow> y | None \<Rightarrow> x) = w"
        by (simp add: map_add_def)
      ultimately show ?thesis using a IH del by (simp add: js_spread_snoc AList.delete_eq)
    next
      case kv: False
      from knew kv keysA have "k \<notin> fst ` set ?A" by blast
      from js_put_new_named [OF this False] have "js_put k w ?A = ?A @ [(k, w)]" .
      moreover from False have "index_part (xs @ [(k, w)]) = index_part xs"
        and "named_part (xs @ [(k, w)]) = named_part xs @ [(k, w)]"
        by (simp_all add: index_part_def named_part_def)
      moreover from kv
      have "(case map_of (xs @ [(k, w)]) v of Some y \<Rightarrow> y | None \<Rightarrow> x) = ?y"
        by (simp add: map_add_def split: option.splits)
      ultimately show ?thesis using a IH kv by (simp add: js_spread_snoc AList.delete_eq)
    qed
  qed
qed

lemma spread_front_index:
  assumes "is_array_index v" "js_ordered obj"
  shows "js_spread [(v, x)] obj = (if v \<in> fst ` set obj then obj else insert_index v x obj)"
  using assms(2)
proof (induction obj rule: rev_induct)
  case Nil
  show ?case by (simp add: js_spread_def)
next
  case (snoc a xs)
  obtain k w where a: "a = (k, w)" by (cases a)
  from snoc.prems a have ord: "js_ordered xs" and knew: "k \<notin> fst ` set xs"
    and small: "is_array_index k \<Longrightarrow> \<forall>k' \<in> fst ` set xs. is_array_index k' \<and> read_nat k' < read_nat k"
    by (auto simp: js_ordered_snoc)
  from snoc.IH ord
  have IH: "js_spread [(v, x)] xs = (if v \<in> fst ` set xs then xs else insert_index v x xs)"
    by simp
  from snoc.prems a have put: "js_put k w xs = xs @ [(k, w)]" by (simp add: js_put_snoc)
  show ?case
  proof (cases "v \<in> fst ` set xs")
    case True
    with IH put a show ?thesis by (simp add: js_spread_snoc)
  next
    case vnew: False
    show ?thesis
    proof (cases "k = v")
      case True
      from small assms(1) True have "insert_index v x (xs @ []) = xs @ insert_index v x []"
        by (intro insert_index_append) simp
      then have "insert_index v x xs = xs @ [(v, x)]" by simp
      with vnew update_at [of v xs w x "[]"]
      have "js_put v w (insert_index v x xs) = xs @ [(v, w)]"
        by (simp add: js_put_def)
      with IH vnew a True show ?thesis by (simp add: js_spread_snoc)
    next
      case kv: False
      have knewI: "k \<notin> fst ` set (insert_index v x xs)"
        using knew kv by (simp add: keys_insert_index)
      have "js_put k w (insert_index v x xs) = insert_index v x (xs @ [(k, w)])"
      proof (cases "is_array_index k \<and> read_nat k < read_nat v")
        case True
        with small have allsmall: "\<forall>k' \<in> fst ` set xs. is_array_index k' \<and> read_nat k' < read_nat k"
          by blast
        with True have "\<forall>k' \<in> set (map fst xs). is_array_index k' \<and> read_nat k' < read_nat v"
          by auto
        then have i1: "insert_index v x (xs @ []) = xs @ insert_index v x []"
          and i2: "insert_index v x (xs @ [(k, w)]) = xs @ insert_index v x [(k, w)]"
          by (rule insert_index_append)+
        from allsmall have "insert_index k w (xs @ [(v, x)]) = xs @ insert_index k w [(v, x)]"
          by (intro insert_index_append) simp
        with i1 i2 True knewI show ?thesis by (simp add: js_put_def)
      next
        case False
        from insert_index_snoc_stop [OF False]
        have stop: "insert_index v x (xs @ [(k, w)]) = insert_index v x xs @ [(k, w)]" .
        show ?thesis
        proof (cases "is_array_index k")
          case idx: True
          with False have le: "read_nat v \<le> read_nat k" by simp
          from array_index_inj [OF assms(1) idx] kv have "read_nat v \<noteq> read_nat k" by blast
          with le have lt: "read_nat v < read_nat k" by simp
          with small [OF idx] assms(1)
          have "\<forall>k' \<in> set (map fst (insert_index v x xs)). is_array_index k' \<and> read_nat k' < read_nat k"
            by (auto simp: set_insert_index)
          then have "insert_index k w (insert_index v x xs @ []) = insert_index v x xs @ insert_index k w []"
            by (rule insert_index_append)
          with stop idx knewI show ?thesis by (simp add: js_put_def)
        next
          case nidx: False
          with stop knewI show ?thesis by (simp add: js_put_def)
        qed
      qed
      with IH vnew kv a show ?thesis by (simp add: js_spread_snoc)
    qed
  qed
qed


section \<open>What the merge returns\<close>

lemma map_of_insert_index:
  "k \<notin> fst ` set obj \<Longrightarrow> map_of (insert_index k x obj) = (map_of obj)(k \<mapsto> x)"
  by (induction obj) (auto simp: fun_eq_iff)

lemma map_of_js_put: "map_of (js_put k x obj) = (map_of obj)(k \<mapsto> x)"
proof (cases "k \<in> fst ` set obj")
  case True
  then show ?thesis by (simp add: js_put_old update_conv')
next
  case False
  then have "map_of obj k = None" by (simp add: map_of_eq_None_iff)
  with False show ?thesis
    by (cases "is_array_index k")
       (auto simp: js_put_new_index js_put_new_named map_of_insert_index fun_eq_iff map_add_def
             split: option.splits)
qed

lemma delete_insert_index:
  "k \<notin> fst ` set obj \<Longrightarrow> AList.delete k (insert_index k x obj) = obj"
  by (induction obj) auto

lemma delete_snoc_new:
  "k \<notin> fst ` set obj \<Longrightarrow> AList.delete k (obj @ [(k, x)]) = obj"
  by (induction obj) auto

lemma js_delete_put:
  assumes "k \<notin> fst ` set obj"
  shows "js_delete k (js_put k x obj) = obj"
proof (cases "is_array_index k")
  case True
  with assms show ?thesis
    by (simp add: js_delete_def js_put_new_index delete_insert_index)
next
  case False
  with assms show ?thesis
    by (simp add: js_delete_def js_put_new_named delete_snoc_new)
qed

lemma map_of_at:
  "k \<notin> fst ` set xs \<Longrightarrow> map_of (xs @ (k, x) # ys) k = Some x"
  by (induction xs) auto

lemma index_part_keys:
  "k \<in> fst ` set (index_part L) \<Longrightarrow> is_array_index k"
  by (auto simp: index_part_def)

lemma front_parts:
  assumes "\<not> is_array_index v"
  shows "index_part (index_part L @ (v, x) # AList.delete v (named_part L)) = index_part L"
    and "named_part (index_part L @ (v, x) # AList.delete v (named_part L))
           = (v, x) # AList.delete v (named_part L)"
    and "map_of (index_part L @ (v, x) # AList.delete v (named_part L)) v = Some x"
    and "AList.delete v ((v, x) # AList.delete v (named_part L)) = AList.delete v (named_part L)"
proof -
  have i: "index_part (index_part L) = index_part L" and n: "named_part (index_part L) = []"
    and i': "index_part (AList.delete v (named_part L)) = []"
    and n': "named_part (AList.delete v (named_part L)) = AList.delete v (named_part L)"
    by (induction L) (auto simp: index_part_def named_part_def)
  have app: "index_part (xs @ ys) = index_part xs @ index_part ys"
    "named_part (xs @ ys) = named_part xs @ named_part ys" for xs ys :: "'a js_object"
    by (simp_all add: index_part_def named_part_def)
  have cons: "index_part ((v, x) # ys) = index_part ys"
    "named_part ((v, x) # ys) = (v, x) # named_part ys" for ys :: "'a js_object"
    using assms by (simp_all add: index_part_def named_part_def)
  show "index_part (index_part L @ (v, x) # AList.delete v (named_part L)) = index_part L"
    by (simp add: app cons i i')
  show "named_part (index_part L @ (v, x) # AList.delete v (named_part L))
           = (v, x) # AList.delete v (named_part L)"
    by (simp add: app cons n n')
  from assms index_part_keys have "v \<notin> fst ` set (index_part L)" by blast
  then show "map_of (index_part L @ (v, x) # AList.delete v (named_part L)) v = Some x"
    by (rule map_of_at)
  show "AList.delete v ((v, x) # AList.delete v (named_part L)) = AList.delete v (named_part L)"
    by (simp add: delete_idem)
qed

lemma delete_parts:
  assumes "\<not> is_array_index v"
  shows "index_part (js_delete v L) = index_part L"
    and "named_part (js_delete v L) = AList.delete v (named_part L)"
  using assms
  by (induction L) (auto simp: index_part_def named_part_def js_delete_def)

lemma bucket_of_keys:
  "bucket_of L v \<noteq> [] \<Longrightarrow> v \<in> fst ` set L"
  by (cases "map_of L v") (auto simp: bucket_of_def dest: map_of_SomeD intro: rev_image_eqI)

lemma bucket_of_absent:
  "v \<notin> fst ` set L \<Longrightarrow> bucket_of L v = []"
  by (simp add: bucket_of_def map_of_eq_None_iff [symmetric])

lemma bucket_of_js_put: "bucket_of (js_put v x L) v = x"
  by (simp add: bucket_of_def map_of_js_put)

lemma keys_js_put: "fst ` set (js_put k v obj) = insert k (fst ` set obj)"
  by (auto simp: js_put_def dom_update keys_insert_index)

lemma keys_js_spread: "fst ` set (js_spread target src) = fst ` set target \<union> fst ` set src"
proof (induction src rule: rev_induct)
  case Nil
  show ?case by (simp add: js_spread_def)
next
  case (snoc a xs)
  obtain k v where a: "a = (k, v)" by (cases a)
  from snoc.IH a show ?case by (simp add: js_spread_snoc keys_js_put)
qed

lemma merge_throws:
  assumes "\<not> bucket_readable log v"
  shows "merge log v r = Inl TypeError"
  using assms keys_js_spread [of "[]" log]
  by (simp add: merge_def bucket_readable_def Let_def)

lemma merge_returns:
  assumes "bucket_readable log v"
  shows "\<exists>newLog. merge log v r = Inr newLog"
  using assms keys_js_spread [of "[]" log]
  by (auto simp: merge_def bucket_readable_def Let_def)

lemma merge_readable:
  assumes "merge log v r = Inr newLog"
  shows "bucket_readable log v"
  using assms merge_throws [of log v r] by (cases "bucket_readable log v") simp_all

lemma merge_eq:
  assumes "js_ordered log" and "bucket_readable log v"
  shows "merge log v r = Inr
    (if stringify r \<in> set (map stringify (bucket_of log v))
     then (if is_array_index v then log
           else index_part log @ (v, bucket_of log v) # AList.delete v (named_part log))
     else (if is_array_index v then insert_index v (r # bucket_of log v) (js_delete v log)
           else index_part log @ (v, r # bucket_of log v) # AList.delete v (named_part log)))"
proof -
  let ?b = "bucket_of log v"
  have copy: "js_spread [] log = log" using assms(1) by (rule js_spread_copy)
  from assms(2) have rd: "v \<in> fst ` set log \<or> v \<notin> set inherited_members"
    by (simp add: bucket_readable_def)
  have b': "bucket_of (js_put v [] log) v = ?b" if "v \<notin> fst ` set log"
    using that by (simp add: bucket_of_js_put bucket_of_absent)
  have del': "js_delete v (js_put v [] log) = js_delete v log" if "v \<notin> fst ` set log"
    using that by (simp add: js_delete_put) (simp add: js_delete_def)
  have dord: "js_ordered (js_delete v log)" using assms(1) by (rule js_ordered_delete)
  have dnew: "v \<notin> fst ` set (js_delete v log)"
    by (simp add: js_delete_def delete_notin_dom)
  then have dmap: "map_of (js_delete v log) v = None" by (simp add: map_of_eq_None_iff)
  show ?thesis
  proof (cases "stringify r \<in> set (map stringify ?b)")
    case dup: True
    then have "?b \<noteq> []" by auto
    then have vin: "v \<in> fst ` set log" by (rule bucket_of_keys)
    from vin have mv: "(case map_of log v of Some y \<Rightarrow> y | None \<Rightarrow> ?b) = ?b"
      by (simp add: bucket_of_def split: option.splits)
    have "merge log v r = Inr (js_spread [(v, ?b)] log)"
      using dup copy vin by (simp add: merge_def Let_def)
    also have "js_spread [(v, ?b)] log = (if is_array_index v then log
           else index_part log @ (v, ?b) # AList.delete v (named_part log))"
      using spread_front_index [OF _ assms(1), of v ?b] spread_front_named [OF _ assms(1), of v ?b]
        vin mv
      by simp
    finally show ?thesis using dup by simp
  next
    case new: False
    define sb'' where "sb'' = js_spread [(v, r # ?b)] (js_delete v log)"
    have m: "merge log v r = Inr (js_spread [(v, bucket_of sb'' v)] sb'')"
      using new copy b' del' rd unfolding sb''_def
      by (cases "v \<in> fst ` set log") (simp_all add: merge_def Let_def)
    show ?thesis
    proof (cases "is_array_index v")
      case True
      from spread_front_index [OF True dord, of "r # ?b"] dnew
      have s2: "sb'' = insert_index v (r # ?b) (js_delete v log)" by (simp add: sb''_def)
      have o2: "js_ordered sb''"
        unfolding s2 using dord dnew True by (rule js_ordered_insert_index)
      have "v \<in> fst ` set sb''" by (simp add: s2 keys_insert_index)
      with spread_front_index [OF True o2, of "bucket_of sb'' v"] m s2 new True
      show ?thesis by simp
    next
      case False
      from spread_front_named [OF False dord, of "r # ?b"] dmap delete_parts [OF False, of log]
      have s2: "sb'' = index_part log @ (v, r # ?b) # AList.delete v (named_part log)"
        by (simp add: sb''_def delete_idem)
      have o2: "js_ordered sb''"
        unfolding sb''_def by (rule js_ordered_spread) (simp add: js_ordered_def)
      have mv2: "map_of sb'' v = Some (r # ?b)"
        unfolding s2 by (rule front_parts(3) [OF False])
      then have b2: "bucket_of sb'' v = r # ?b"
        by (simp add: bucket_of_def)
      from mv2 have "(case map_of sb'' v of Some y \<Rightarrow> y | None \<Rightarrow> r # ?b) = r # ?b"
        by simp
      with spread_front_named [OF False o2, of "r # ?b"]
      have "js_spread [(v, r # ?b)] sb'' =
              index_part sb'' @ (v, r # ?b) # AList.delete v (named_part sb'')"
        by simp
      also have "\<dots> = index_part log @ (v, r # ?b) # AList.delete v (named_part log)"
        unfolding s2 by (simp add: front_parts(1,2) [OF False] delete_idem)
      finally show ?thesis using m b2 new False by simp
    qed
  qed
qed

lemma merge_result:
  assumes "js_ordered log" and "merge log v r = Inr newLog"
  shows "newLog =
    (if already_logged r (bucket_of log v)
     then (if is_array_index v then log
           else index_part log @ (v, bucket_of log v) # AList.delete v (named_part log))
     else (if is_array_index v then insert_index v (r # bucket_of log v) (js_delete v log)
           else index_part log @ (v, r # bucket_of log v) # AList.delete v (named_part log)))"
  using merge_eq [OF assms(1) merge_readable [OF assms(2)], of r] assms(2)
  by (simp add: already_logged_def)

lemma ordered_parts:
  "js_ordered obj \<Longrightarrow> obj = index_part obj @ named_part obj"
proof (induction obj rule: rev_induct)
  case Nil
  show ?case by (simp add: index_part_def named_part_def)
next
  case (snoc a xs)
  obtain k w where a: "a = (k, w)" by (cases a)
  from snoc.prems a have ord: "js_ordered xs"
    and small: "is_array_index k \<Longrightarrow> \<forall>k' \<in> fst ` set xs. is_array_index k'"
    by (auto simp: js_ordered_snoc)
  show ?case
  proof (cases "is_array_index k")
    case True
    from all_index_parts [OF small [OF True]] True a show ?thesis
      by (simp add: index_part_def named_part_def)
  next
    case False
    from snoc.IH [OF ord] have "xs @ [(k, w)] = index_part xs @ named_part xs @ [(k, w)]"
      by simp
    with False a show ?thesis by (simp add: index_part_def named_part_def)
  qed
qed

lemma merge_ordered:
  assumes "merge log v r = Inr newLog"
  shows "js_ordered newLog"
proof -
  have "js_ordered (js_spread [(v, b)] obj)" for b :: "json list" and obj
    by (rule js_ordered_spread) (simp add: js_ordered_def)
  with assms show ?thesis
    by (auto simp: merge_def Let_def split: if_splits)
qed

lemma bucket_of_merge:
  assumes "js_ordered log" and "merge log v r = Inr newLog"
  shows "map_of newLog v =
           Some (if already_logged r (bucket_of log v) then bucket_of log v
                 else r # bucket_of log v)"
proof (cases "already_logged r (bucket_of log v)")
  case dup: True
  then have "bucket_of log v \<noteq> []" by (auto simp: already_logged_def)
  then have "map_of log v = Some (bucket_of log v)"
    by (cases "map_of log v") (simp_all add: bucket_of_def)
  with dup merge_result [OF assms] front_parts(3) [of v log "bucket_of log v"]
  show ?thesis by simp
next
  case new: False
  have "v \<notin> fst ` set (js_delete v log)" by (simp add: js_delete_def delete_notin_dom)
  then have "map_of (insert_index v (r # bucket_of log v) (js_delete v log)) v
               = Some (r # bucket_of log v)"
    by (simp add: map_of_insert_index)
  with new merge_result [OF assms] front_parts(3) [of v log "r # bucket_of log v"]
  show ?thesis by simp
qed

lemma merge_set:
  assumes "js_ordered log" and "merge log v r = Inr newLog"
  shows "set newLog \<subseteq>
           insert (v, if already_logged r (bucket_of log v) then bucket_of log v
                      else r # bucket_of log v) (set log)"
proof -
  have "set (index_part log) \<subseteq> set log" "set (AList.delete v (named_part log)) \<subseteq> set log"
    "set (js_delete v log) \<subseteq> set log"
    by (auto simp: index_part_def named_part_def AList.delete_eq js_delete_def)
  with merge_result [OF assms] show ?thesis
    by (auto simp: set_insert_index split: if_splits)
qed

lemma logged_bucket:
  assumes "already_logged r (bucket_of log v)"
  shows "map_of log v = Some (bucket_of log v)" and "bucket_readable log v"
proof -
  from assms have "bucket_of log v \<noteq> []" by (auto simp: already_logged_def)
  then show "map_of log v = Some (bucket_of log v)"
    by (cases "map_of log v") (simp_all add: bucket_of_def)
  then have "v \<in> fst ` set log" by (auto dest: map_of_SomeD intro: rev_image_eqI)
  then show "bucket_readable log v" by (simp add: bucket_readable_def)
qed

lemma merge_duplicate_eq:
  assumes "js_ordered log" and "already_logged r (bucket_of log v)"
  shows "merge log v r = Inr (if is_array_index v then log
             else index_part log @ (v, bucket_of log v) # AList.delete v (named_part log))"
  using merge_eq [OF assms(1) logged_bucket(2) [OF assms(2)], of r] assms(2)
  by (simp add: already_logged_def)

lemma map_of_front:
  assumes "js_ordered log" "\<not> is_array_index v" "map_of log v = Some b"
  shows "map_of (index_part log @ (v, b) # AList.delete v (named_part log)) = map_of log"
proof
  fix k
  from ordered_parts [OF assms(1)]
  have e: "map_of log = map_of (index_part log @ named_part log)"
    by (rule arg_cong)
  have l: "map_of log k = (case map_of (index_part log) k of
                          None \<Rightarrow> map_of (named_part log) k | Some x \<Rightarrow> Some x)"
    by (subst e) (simp add: map_add_def)
  show "map_of (index_part log @ (v, b) # AList.delete v (named_part log)) k = map_of log k"
  proof (cases "k = v")
    case True
    with front_parts(3) [OF assms(2), of log b] assms(3) show ?thesis by simp
  next
    case False
    then show ?thesis unfolding l by (simp add: map_add_def split: option.splits)
  qed
qed

lemma front_first:
  assumes "js_ordered log" "\<not> is_array_index v" "log = (v, b) # rest"
  shows "index_part log @ (v, b) # AList.delete v (named_part log) = log"
proof -
  from assms have nidx: "\<forall>k' \<in> fst ` set rest. \<not> is_array_index k'"
    and vnew: "v \<notin> fst ` set rest"
    by (auto simp: js_ordered_def)
  from nidx have "index_part rest = []" "named_part rest = rest"
    by (induction rest) (auto simp: index_part_def named_part_def)
  with assms(2) have "index_part ((v, b) # rest) = []" "named_part ((v, b) # rest) = (v, b) # rest"
    by (simp_all add: index_part_def named_part_def)
  with vnew show ?thesis unfolding assms(3) by simp
qed


lemma no_index_parts:
  assumes "\<forall>k \<in> set (map fst log). \<not> is_array_index k"
  shows "index_part log = []" and "named_part log = log"
  using assms by (induction log) (auto simp: index_part_def named_part_def)

lemma merge_moves_version_first:
  assumes "js_ordered log" and "\<not> is_array_index v" and "index_part log = []"
    and "bucket_readable log v"
  shows "\<exists>newLog. merge log v r = Inr newLog \<and> map fst newLog = v # removeAll v (map fst log)"
proof -
  from ordered_parts [OF assms(1)] assms(3) have n: "named_part log = log" by simp
  from merge_eq [OF assms(1,4), of r] assms(2,3) n show ?thesis
    by (simp add: delete_keys)
qed

lemma set_update_subset:
  "set (AList.update k v obj) \<subseteq> insert (k, v) (set obj)"
  by (induction obj) auto

lemma set_js_put_subset:
  "set (js_put k v obj) \<subseteq> insert (k, v) (set obj)"
  using set_update_subset [of k v obj]
  by (auto simp: js_put_def set_insert_index)

lemma set_js_spread_subset:
  "set (js_spread target src) \<subseteq> set target \<union> set src"
proof (induction src rule: rev_induct)
  case Nil
  show ?case by (simp add: js_spread_def)
next
  case (snoc a xs)
  obtain k v where a: "a = (k, v)" by (cases a)
  from set_js_put_subset [of k v "js_spread target xs"] snoc.IH a show ?case
    by (auto simp: js_spread_snoc)
qed

lemma merge_copy: "merge log v r = merge (js_spread [] log) v r"
proof -
  have "js_ordered (js_spread [] log)"
    by (rule js_ordered_spread) (simp add: js_ordered_def)
  then have "js_spread [] (js_spread [] log) = js_spread [] log"
    by (rule js_spread_copy)
  then show ?thesis by (simp add: merge_def)
qed

lemma merge_idempotent_ordered:
  assumes "js_ordered log" and "merge log v r = Inr newLog"
  shows "merge newLog v r = Inr newLog"
proof -
  let ?nb = "if already_logged r (bucket_of log v) then bucket_of log v else r # bucket_of log v"
  have ordM: "js_ordered newLog" using assms(2) by (rule merge_ordered)
  have mM: "map_of newLog v = Some ?nb" using assms by (rule bucket_of_merge)
  then have bM: "bucket_of newLog v = ?nb" by (simp add: bucket_of_def)
  have dup: "already_logged r (bucket_of newLog v)"
    unfolding bM by (simp add: already_logged_def)
  note again = merge_duplicate_eq [OF ordM dup]
  show ?thesis
  proof (cases "is_array_index v")
    case True
    with again show ?thesis by simp
  next
    case False
    from merge_result [OF assms] False
    have M: "newLog = index_part log @ (v, ?nb) # AList.delete v (named_part log)"
      by simp
    from again False
    have "merge newLog v r = Inr (index_part newLog @ (v, ?nb) # AList.delete v (named_part newLog))"
      by (simp add: bM)
    also have "index_part newLog @ (v, ?nb) # AList.delete v (named_part newLog)
                 = index_part log @ (v, ?nb) # AList.delete v (named_part log)"
      by (subst (1 2) M) (simp add: front_parts(1,2) [OF False] delete_idem)
    finally show ?thesis using M by simp
  qed
qed

lemma merge_keeps_distinct_ordered:
  assumes "js_ordered log" and "merge log v r = Inr newLog" and h: "no_equal_texts log"
  shows "no_equal_texts newLog"
proof -
  let ?b = "bucket_of log v"
  have old: "?b = [] \<or> (v, ?b) \<in> set log"
    by (cases "map_of log v") (auto simp: bucket_of_def dest: map_of_SomeD)
  from h old have db: "distinct (map stringify ?b)" by (auto simp: no_equal_texts_def)
  have "distinct (map stringify entries)" if "(k, entries) \<in> set newLog" for k entries
  proof -
    from that merge_set [OF assms(1,2)]
    consider "(k, entries) \<in> set log"
      | "entries = (if already_logged r ?b then ?b else r # ?b)" by auto
    then show ?thesis
    proof cases
      case 1 with h show ?thesis by (auto simp: no_equal_texts_def)
    next
      case 2 with db show ?thesis by (auto simp: already_logged_def)
    qed
  qed
  then show ?thesis by (auto simp: no_equal_texts_def)
qed


section \<open>What the loops leave\<close>

lemma update_insert_index:
  "k \<notin> fst ` set obj \<Longrightarrow> AList.update k v2 (insert_index k v1 obj) = insert_index k v2 obj"
  by (induction obj) auto

lemma js_put_twice: "js_put k v2 (js_put k v1 obj) = js_put k v2 obj"
proof (cases "k \<in> fst ` set obj")
  case True
  then have "k \<in> fst ` set (AList.update k v1 obj)" by (simp add: dom_update)
  with True show ?thesis by (simp add: js_put_old)
next
  case False
  show ?thesis
  proof (cases "is_array_index k")
    case True
    have "k \<in> fst ` set (insert_index k v1 obj)" by (simp add: keys_insert_index)
    with True False show ?thesis
      by (simp add: js_put_new_index js_put_old update_insert_index)
  next
    case named: False
    have "k \<in> fst ` set (obj @ [(k, v1)])" by simp
    with named False update_at [OF False, of v2 v1 "[]"] show ?thesis
      by (simp add: js_put_new_named js_put_old)
  qed
qed

lemma set_property_named:
  "name \<noteq> ''__proto__'' \<Longrightarrow>
   set_property name v (properties, has_prototype) = (js_put name v properties, has_prototype)"
  by (simp add: set_property_def)

text \<open>
  On a machine where no call throws, the loop runs every candidate that is an array, and
  every candidate that exits with status 0 and prints something assigns its text in turn.
\<close>

lemma eachCommand_loop_fold:
  assumes "\<forall>c \<in> set cmds. \<not> throws sp c"
  shows "eachCommand_loop sp name cmds (ex, calls) =
           Inr (foldl (\<lambda>obj c. set_property name (JStr (version_text sp c)) obj) ex
                  (filter (succeeds sp) cmds),
                calls @ calls_of cmds)"
  using assms
proof (induction cmds arbitrary: ex calls)
  case Nil
  show ?case by (simp add: calls_of_def)
next
  case (Cons c cs)
  from Cons.prems have nothrow: "\<not> throws sp c" and rest: "\<forall>c \<in> set cs. \<not> throws sp c"
    by simp_all
  note IH = Cons.IH [OF rest]
  show ?case
  proof (cases "\<exists>xs. c = JArr xs")
    case False
    then have "eachCommand_loop sp name (c # cs) (ex, calls) = eachCommand_loop sp name cs (ex, calls)"
      by (cases c) simp_all
    moreover from False have "\<not> succeeds sp c" "calls_of (c # cs) = calls_of cs"
      by (cases c; simp add: succeeds_def calls_of_def)+
    ultimately show ?thesis using IH by simp
  next
    case True
    then obtain xs where c: "c = JArr xs" by blast
    from nothrow c obtain result where
      r: "sp (fst (destructure xs)) (snd (destructure xs)) = Inr result"
      by (cases "sp (fst (destructure xs)) (snd (destructure xs))") (auto simp: throws_def)
    have calls: "calls_of (c # cs) = destructure xs # calls_of cs"
      by (simp add: c calls_of_def)
    show ?thesis
    proof (cases "status result = Some 0 \<and> combined_output result \<noteq> []")
      case False
      then have "eachCommand_loop sp name (c # cs) (ex, calls)
                   = eachCommand_loop sp name cs (ex, calls @ [destructure xs])"
        by (auto simp: c r)
      moreover from False have "\<not> succeeds sp c" by (simp add: succeeds_def c r)
      ultimately show ?thesis using IH calls by simp
    next
      case True
      let ?v = "JStr (strip_ansi (combined_output result))"
      from True have "eachCommand_loop sp name (c # cs) (ex, calls)
                   = eachCommand_loop sp name cs (set_property name ?v ex, calls @ [destructure xs])"
        by (auto simp: c r)
      moreover from True have "succeeds sp c" by (simp add: succeeds_def c r)
      moreover have "version_text sp c = strip_ansi (combined_output result)"
        by (simp add: version_text_def c r)
      ultimately show ?thesis using IH calls by simp
    qed
  qed
qed

text \<open>
  For a name other than \<^verbatim>\<open>__proto__\<close> each assignment overwrites the one before, and what
  is left is the text of the last candidate that succeeded.
\<close>

lemma eachCommand_loop_result:
  assumes "\<forall>c \<in> set cmds. \<not> throws sp c" and "name \<noteq> ''__proto__''"
  shows "eachCommand_loop sp name cmds ((properties, has_prototype), calls) =
           Inr ((case filter (succeeds sp) cmds of
                   [] \<Rightarrow> properties
                 | h # hs \<Rightarrow> js_put name (JStr (version_text sp (last (h # hs)))) properties,
                 has_prototype),
                calls @ calls_of cmds)"
proof -
  have f: "foldl (\<lambda>obj c. set_property name (JStr (version_text sp c)) obj)
             (properties, has_prototype) hits
           = ((case hits of
                 [] \<Rightarrow> properties
               | h # hs \<Rightarrow> js_put name (JStr (version_text sp (last (h # hs)))) properties),
              has_prototype)" for hits
  proof (induction hits rule: rev_induct)
    case Nil
    show ?case by simp
  next
    case (snoc x xs)
    then show ?case
      by (cases xs) (simp_all add: set_property_named [OF assms(2)] js_put_twice)
  qed
  show ?thesis
    unfolding eachCommand_loop_fold [OF assms(1)] f ..
qed

lemma first_variant_runs_nothing:
  "eachCommand_loop_first_variant spawnSync name versionCommands (executables, calls) = Inr st
     \<Longrightarrow> st = (executables, calls)"
  by (induction versionCommands)
     (auto split: if_splits option.splits json.splits)

section \<open>Evaluating the samples\<close>

lemmas index_eval = is_array_index_def read_nat_def digits_of.simps is_digit_def

lemmas text_eval = quote_def quote_char_def hex_digit_def

lemmas object_eval = js_spread_def js_put_def js_delete_def bucket_of_def

lemmas pattern_eval = ansi_match_def is_intro_def is_prefix_char_def is_final_def parameters_def
  digits_1_4_def is_digit_def semicolon_groups.simps strip_ansi.simps eval_nat_numeral

lemmas probe_eval = probe_def get_prop_def property_key_def destructure_def combined_output_def
  trim_def is_space_def candidates_of_def throws_def succeeds_def version_text_def calls_of_def
  set_property_def empty_object_def

lemma sample_keys:
  "\<not> is_array_index ''1.0.0''" "\<not> is_array_index ''2.0.0''"
  "is_array_index ''1''" "is_array_index ''2''"
  "read_nat ''1'' = 1" "read_nat ''2'' = 2"
  "\<not> is_array_index ''0.0.0''" "\<not> is_array_index ''undefined''"
  "\<not> is_array_index ''node''" "\<not> is_array_index ''npm''" "\<not> is_array_index ''git''"
  by (simp_all add: index_eval)

lemma strip_ansi_sample:
  "strip_ansi (CHR 0x1B # ''[31mhello'' @ CHR 0x1B # ''[0m'') = ''hello''"
  "strip_ansi (CHR 0x1B # ''[1;32;4mgit version 2.34.1'') = ''git version 2.34.1''"
  "strip_ansi ''v18.0.0'' = ''v18.0.0''"
  by (simp_all add: pattern_eval)

lemma sample_entries:
  "stringify entry_A \<noteq> stringify entry_B"
  "stringify entry_B \<noteq> stringify entry_A"
  "stringify entry_node_npm \<noteq> stringify entry_npm_node"
  "stringify entry_npm_node \<noteq> stringify entry_node_npm"
  by (simp_all add: entry_A_def entry_B_def entry_node_npm_def entry_npm_node_def
        versionEntry_of_def text_eval)

lemma sample_ordered:
  "js_ordered ([] :: build_log)"
  "js_ordered [(''1.0.0'', [entry_A])]"
  "js_ordered [(''2.0.0'', [entry_B]), (''1.0.0'', [entry_A])]"
  "js_ordered [(''1.0.0'', [entry_node_npm])]"
  by (simp_all add: js_ordered_def sample_keys)

text \<open>
  The members every object inherits, at work. A trackable named \<^verbatim>\<open>__proto__\<close> leaves no
  property: line 463 takes the prototype away instead, and the trackable after it is
  recorded as usual. A name that is an object with a \<^verbatim>\<open>toString\<close> of its own cannot be
  made a property key. A log without the key \<^verbatim>\<open>constructor\<close> cannot be merged into that
  version; a log that has the key can.
\<close>

lemma proto_name_records_nothing:
  "eachTrackable_loop spawnSync [proto_named, named_only] (empty_object, [])
     = Inr (([(''git'', JNull)], False), [])"
  by (simp add: proto_named_def named_only_def probe_eval js_put_def index_eval)

lemma unprintable_name_throws:
  "eachTrackable_loop spawnSync
     (JObj [(''name'', JArr [JStr ''a'', JObj [(''toString'', JNull)]])] # rest)
     (executables, calls) = Inl TypeError"
  by (simp add: get_prop_def property_key_def)

lemma merge_inherited_name:
  "merge [] ''constructor'' entry_A = Inl TypeError"
  "merge [(''constructor'', [entry_A])] ''constructor'' entry_B
     = Inr [(''constructor'', [entry_B, entry_A])]"
  by (simp_all add: merge_def Let_def object_eval inherited_members_def index_eval sample_entries)

section \<open>Probing: properties\<close>

text \<open>
  C1 at a trackable with two candidates that both succeed. The trackable \<^verbatim>\<open>python\<close>
  lists \<^verbatim>\<open>["python3", "--version"]\<close> and then \<^verbatim>\<open>["python", "--version"]\<close>; both exit
  with status 0 and print a version. The loop has no \<^verbatim>\<open>break\<close>: both commands are run,
  and the second output overwrites the first, so the entry is the output of the last
  succeeding candidate.
\<close>

theorem every_candidate_runs_last_success_wins:
  "eachTrackable_loop two_pythons [python_trackable] (empty_object, [])
     = Inr (([(''python'', JStr ''Python 2.7.18'')], True),
            [(Some (JStr ''python3''), [JStr ''--version'']),
             (Some (JStr ''python''), [JStr ''--version''])])
   \<and> probe two_pythons python_trackable = Inr (Some (JStr ''Python 2.7.18''))"
  by (simp add: python_trackable_def two_pythons_def probe_eval pattern_eval js_put_def index_eval Let_def)

text \<open>
  C4 at a candidate that prints nothing but a colour reset. The one candidate of the
  trackable \<^verbatim>\<open>tool\<close> exits with status 0 and its output is the escape code
  \<^verbatim>\<open>ESC[0m\<close>, of which nothing is left once the escape codes are removed. The
  emptiness test of line 481 comes before line 483 removes the codes, so the candidate
  counts as a success and the probe returns the empty string as the version, not
  \<^verbatim>\<open>null\<close>.
\<close>

theorem colour_codes_alone_are_a_version:
  "colour_only (Some (JStr ''tool'')) [] = Inr colour_reset
   \<and> status colour_reset = Some 0
   \<and> strip_ansi (combined_output colour_reset) = []
   \<and> probe colour_only tool_trackable = Inr (Some (JStr []))"
  by (simp add: tool_trackable_def colour_only_def colour_reset_def probe_eval pattern_eval js_put_def index_eval Let_def)

text \<open>
  C5, as the code has it. Nothing checks the shape of a trackable and no configuration
  error exists. A trackable other than \<^verbatim>\<open>null\<close> without a non-empty list of commands,
  whose name makes a property key other than \<^verbatim>\<open>__proto__\<close>, raises nothing and runs
  nothing: \<^verbatim>\<open>null\<close> is recorded under its name and the loop goes on to the next
  trackable. A trackable without a name is handled as if its name were \<^verbatim>\<open>"undefined"\<close>.
\<close>

theorem trackable_without_name_or_commands:
  "(trackable \<noteq> JNull \<and> candidates_of trackable = []
      \<and> property_key (get_prop trackable ''name'') = Inr name \<and> name \<noteq> ''__proto__'' \<longrightarrow>
      eachTrackable_loop spawnSync (trackable # rest) ((properties, has_prototype), calls)
        = eachTrackable_loop spawnSync rest
            ((js_put name JNull properties, has_prototype), calls))
   \<and> (get_prop (JObj members) ''name'' = None \<longrightarrow>
        property_key (get_prop (JObj members) ''name'') = Inr ''undefined''
        \<and> eachTrackable_loop spawnSync (JObj members # rest) (executables, calls)
            = eachTrackable_loop spawnSync
                (JObj ((''name'', JStr ''undefined'') # members) # rest) (executables, calls))"
proof -
  have 1: "eachTrackable_loop spawnSync (trackable # rest) ((properties, has_prototype), calls)
        = eachTrackable_loop spawnSync rest
            ((js_put name JNull properties, has_prototype), calls)"
    if "trackable \<noteq> JNull" "candidates_of trackable = []"
      "property_key (get_prop trackable ''name'') = Inr name" "name \<noteq> ''__proto__''"
    using that
    by (auto simp: candidates_of_def set_property_named Let_def split: option.splits json.splits)
  have 2: "property_key (get_prop (JObj members) ''name'') = Inr ''undefined''
        \<and> eachTrackable_loop spawnSync (JObj members # rest) (executables, calls)
            = eachTrackable_loop spawnSync
                (JObj ((''name'', JStr ''undefined'') # members) # rest) (executables, calls)"
    if "get_prop (JObj members) ''name'' = None"
    using that by (simp add: get_prop_def property_key_def Let_def)
  from 1 2 show ?thesis by blast
qed

theorem trackable_without_name_or_commands_witness:
  "named_only \<noteq> JNull \<and> candidates_of named_only = []
   \<and> property_key (get_prop named_only ''name'') = Inr ''git'' \<and> ''git'' \<noteq> ''__proto__''
   \<and> eachTrackable_loop nothing_installed [named_only] (([], True), [])
       = Inr (([(''git'', JNull)], True), [])
   \<and> get_prop (JObj commands_only) ''name'' = None
   \<and> eachTrackable_loop nothing_installed [JObj commands_only] (([], True), [])
       = Inr (([(''undefined'', JNull)], True), [(Some (JStr ''tool''), [])])"
proof -
  note T = trackable_without_name_or_commands
             [of named_only "''git''" nothing_installed "[]" "[]" True "[]" commands_only
                 "([], True)"]
  have a: "named_only \<noteq> JNull \<and> candidates_of named_only = []
      \<and> property_key (get_prop named_only ''name'') = Inr ''git'' \<and> ''git'' \<noteq> ''__proto__''"
    by (simp add: named_only_def probe_eval)
  have b: "get_prop (JObj commands_only) ''name'' = None"
    by (simp add: commands_only_def get_prop_def)
  from T [THEN conjunct1, THEN mp, OF a]
  have 1: "eachTrackable_loop nothing_installed [named_only] (([], True), [])
      = Inr ((js_put ''git'' JNull [], True), [])"
    by (simp only: eachTrackable_loop.simps(1))
  from T [THEN conjunct2, THEN mp, OF b, THEN conjunct2]
  have 2: "eachTrackable_loop nothing_installed [JObj commands_only] (([], True), [])
      = eachTrackable_loop nothing_installed
          [JObj ((''name'', JStr ''undefined'') # commands_only)] (([], True), [])" .
  have 3: "js_put ''git'' JNull [] = [(''git'', JNull)]"
    by (simp add: js_put_def index_eval)
  have 4: "eachTrackable_loop nothing_installed
          [JObj ((''name'', JStr ''undefined'') # commands_only)] (([], True), [])
        = Inr (([(''undefined'', JNull)], True), [(Some (JStr ''tool''), [])])"
    by (simp add: commands_only_def nothing_installed_def probe_eval js_put_def sample_keys Let_def)
  from a b 1 2 3 4 show ?thesis by simp
qed

text \<open>
  C5 as stated fails: a configuration whose only trackable is the empty object, with
  no name and no commands, makes the call return a log, on any machine, with \<^verbatim>\<open>null\<close>
  recorded under \<^verbatim>\<open>"undefined"\<close>.
\<close>

theorem nameless_trackable_is_accepted:
  "\<forall>spawnSync.
     getUpdatedPackageObject ''linux'' spawnSync
       (JObj [(''versionTracker'', JObj [(''track'', JArr [JObj []])])]) []
     = Inr ([(''0.0.0'', [versionEntry_of ''linux'' [(''undefined'', JNull)]])], [])"
  by (simp add: getUpdatedPackageObject_def track_of_def version_of_def instanceof_Object_def
        get_prop_def property_key_def Let_def merge_def object_eval sample_keys
        set_property_def empty_object_def inherited_members_def)



section \<open>The merge: properties\<close>

text \<open>
  C2, as the code has it, for a log none of whose keys is an array index. When the
  bucket of \<open>v\<close> already holds an entry with the same serialized text as \<open>r\<close>, the merge
  adds nothing: every key keeps its bucket. The log is not returned as it was, though:
  lines 512-515 run for a duplicate too and write \<open>v\<close> first, so the merge returns the
  log with \<open>v\<close> moved to the first place and the other keys in the order they had. That
  is the log itself exactly when \<open>v\<close> is already its first key.
\<close>

theorem merge_duplicate_moves_version_first:
  assumes "js_ordered log"
    and "\<forall>k \<in> set (map fst log). \<not> is_array_index k"
    and "already_logged r (bucket_of log v)"
  shows "merge log v r = Inr ((v, bucket_of log v) # js_delete v log)
       \<and> map_of ((v, bucket_of log v) # js_delete v log) = map_of log
       \<and> map fst ((v, bucket_of log v) # js_delete v log) = v # removeAll v (map fst log)
       \<and> ((v, bucket_of log v) # js_delete v log = log \<longleftrightarrow> take 1 (map fst log) = [v])"
proof -
  let ?F = "(v, bucket_of log v) # js_delete v log"
  note mv = logged_bucket(1) [OF assms(3)]
  then have vin: "v \<in> set (map fst log)" by (auto dest: map_of_SomeD intro: rev_image_eqI)
  with assms(2) have nidx: "\<not> is_array_index v" by blast
  note parts = no_index_parts [OF assms(2)]
  have F: "index_part log @ (v, bucket_of log v) # AList.delete v (named_part log) = ?F"
    by (simp add: parts js_delete_def)
  from merge_duplicate_eq [OF assms(1,3)] nidx have 0: "merge log v r = Inr ?F"
    by (simp add: F)
  from map_of_front [OF assms(1) nidx mv] have 1: "map_of ?F = map_of log"
    by (simp add: F)
  have 2: "map fst ?F = v # removeAll v (map fst log)"
    by (simp add: js_delete_def delete_keys)
  have 3: "?F = log" if t: "take 1 (map fst log) = [v]"
  proof -
    from t obtain x rest where l: "log = (v, x) # rest" by (cases log) auto
    with mv have "x = bucket_of log v" by simp
    with l have "log = (v, bucket_of log v) # rest" by simp
    with assms(1) nidx
    have "index_part log @ (v, bucket_of log v) # AList.delete v (named_part log) = log"
      by (rule front_first)
    then show ?thesis by (simp add: F)
  qed
  have 4: "take 1 (map fst log) = [v]" if e: "?F = log"
  proof -
    from e have "map fst log = map fst ?F" by simp
    then show ?thesis by simp
  qed
  from 0 1 2 3 4 show ?thesis by blast
qed

theorem merge_duplicate_moves_version_first_witness:
  "js_ordered [(''2.0.0'', [entry_B]), (''1.0.0'', [entry_A])]
   \<and> list_all (\<lambda>k. \<not> is_array_index k) (map fst [(''2.0.0'', [entry_B]), (''1.0.0'', [entry_A])])
   \<and> already_logged entry_A (bucket_of [(''2.0.0'', [entry_B]), (''1.0.0'', [entry_A])] ''1.0.0'')
   \<and> merge [(''2.0.0'', [entry_B]), (''1.0.0'', [entry_A])] ''1.0.0'' entry_A
       = Inr [(''1.0.0'', [entry_A]), (''2.0.0'', [entry_B])]
   \<and> map_of [(''1.0.0'', [entry_A]), (''2.0.0'', [entry_B])]
       = map_of [(''2.0.0'', [entry_B]), (''1.0.0'', [entry_A])]"
proof -
  let ?L = "[(''2.0.0'', [entry_B]), (''1.0.0'', [entry_A])]"
  have o: "js_ordered ?L" by (rule sample_ordered)
  have n: "\<forall>k \<in> set (map fst ?L). \<not> is_array_index k" by (simp add: sample_keys)
  have d: "already_logged entry_A (bucket_of ?L ''1.0.0'')"
    by (simp add: already_logged_def bucket_of_def)
  have f: "(''1.0.0'', bucket_of ?L ''1.0.0'') # js_delete ''1.0.0'' ?L
             = [(''1.0.0'', [entry_A]), (''2.0.0'', [entry_B])]"
    by (simp add: bucket_of_def js_delete_def)
  from merge_duplicate_moves_version_first [OF o n d] o n d show ?thesis
    unfolding f by (simp add: list_all_iff)
qed

text \<open>
  C2 as stated fails: the log \<^verbatim>\<open>{"2.0.0": [B], "1.0.0": [A]}\<close> merged with version
  \<^verbatim>\<open>"1.0.0"\<close> and the entry A, which its bucket already holds, comes back with
  \<^verbatim>\<open>"1.0.0"\<close> as the first key.
\<close>

theorem merge_duplicate_changes_key_order:
  "already_logged entry_A (bucket_of [(''2.0.0'', [entry_B]), (''1.0.0'', [entry_A])] ''1.0.0'')
   \<and> merge [(''2.0.0'', [entry_B]), (''1.0.0'', [entry_A])] ''1.0.0'' entry_A
       = Inr [(''1.0.0'', [entry_A]), (''2.0.0'', [entry_B])]
   \<and> merge [(''2.0.0'', [entry_B]), (''1.0.0'', [entry_A])] ''1.0.0'' entry_A
       \<noteq> Inr [(''2.0.0'', [entry_B]), (''1.0.0'', [entry_A])]"
  by (simp add: merge_def Let_def object_eval sample_keys already_logged_def)

text \<open>
  C3 at a version that is an array index. The log \<^verbatim>\<open>{"1": [A]}\<close> merged with version
  \<^verbatim>\<open>"2"\<close> and the entry B comes back as \<^verbatim>\<open>{"1": [A], "2": [B]}\<close>: an object lists its
  array indices in ascending order wherever they were written, so writing \<^verbatim>\<open>"2"\<close> first
  (lines 504-509 and 512-515) does not make it the first key.
\<close>

theorem merge_index_version_not_first:
  "merge [(''1'', [entry_A])] ''2'' entry_B = Inr [(''1'', [entry_A]), (''2'', [entry_B])]
   \<and> map_sum id (map fst) (merge [(''1'', [entry_A])] ''2'' entry_B) = Inr [''1'', ''2'']"
  by (simp add: merge_def Let_def object_eval sample_keys inherited_members_def)

text \<open>
  Where no array index is among the keys, the version is the first key of the merged
  log and the other keys keep their order: here with the version \<^verbatim>\<open>"1.0.0"\<close>, the second
  key of the log.
\<close>

lemma merge_moves_version_first_sample:
  "map_sum id (map fst)
     (merge [(''2.0.0'', [entry_B]), (''1.0.0'', [entry_A])] ''1.0.0'' entry_B)
     = Inr [''1.0.0'', ''2.0.0'']"
proof -
  have i: "index_part [(''2.0.0'', [entry_B]), (''1.0.0'', [entry_A])] = []"
    by (simp add: index_part_def sample_keys)
  have r: "bucket_readable [(''2.0.0'', [entry_B]), (''1.0.0'', [entry_A])] ''1.0.0''"
    by (simp add: bucket_readable_def)
  from merge_moves_version_first [OF sample_ordered(3) sample_keys(1) i r, of entry_B]
  show ?thesis by auto
qed

text \<open>
  C6: the merge is idempotent. For every log, every version \<open>v\<close> and every entry \<open>r\<close>,
  merging \<open>r\<close> into \<open>v\<close> a second time gives what the first merge gave: the same log, or
  the same exception when the first merge throws. The merge returns a log for every
  version that is a key of the log or is not the name of an inherited member, and the
  second merge then returns that log.
\<close>

theorem merge_idempotent:
  "(case merge log v r of Inl e \<Rightarrow> Inl e | Inr newLog \<Rightarrow> merge newLog v r) = merge log v r
   \<and> (bucket_readable log v \<longrightarrow>
        (\<exists>newLog. merge log v r = Inr newLog \<and> merge newLog v r = Inr newLog))"
proof -
  have o: "js_ordered (js_spread [] log)"
    by (rule js_ordered_spread) (simp add: js_ordered_def)
  have again: "merge newLog v r = Inr newLog" if m: "merge log v r = Inr newLog" for newLog
  proof -
    from m have "merge (js_spread [] log) v r = Inr newLog"
      by (simp add: merge_copy [symmetric])
    with o show ?thesis by (rule merge_idempotent_ordered)
  qed
  have 1: "(case merge log v r of Inl e \<Rightarrow> Inl e | Inr newLog \<Rightarrow> merge newLog v r) = merge log v r"
    using again by (cases "merge log v r") simp_all
  have 2: "\<exists>newLog. merge log v r = Inr newLog \<and> merge newLog v r = Inr newLog"
    if "bucket_readable log v"
    using merge_returns [OF that, of r] again by blast
  from 1 2 show ?thesis by blast
qed

theorem merge_idempotent_witness:
  "bucket_readable [(''2.0.0'', [entry_B]), (''1.0.0'', [entry_A])] ''1.0.0''
   \<and> merge [(''2.0.0'', [entry_B]), (''1.0.0'', [entry_A])] ''1.0.0'' entry_B
       = Inr [(''1.0.0'', [entry_B, entry_A]), (''2.0.0'', [entry_B])]
   \<and> merge [(''1.0.0'', [entry_B, entry_A]), (''2.0.0'', [entry_B])] ''1.0.0'' entry_B
       = Inr [(''1.0.0'', [entry_B, entry_A]), (''2.0.0'', [entry_B])]"
proof -
  let ?L = "[(''2.0.0'', [entry_B]), (''1.0.0'', [entry_A])]"
  have r: "bucket_readable ?L ''1.0.0''" by (simp add: bucket_readable_def)
  have m: "merge ?L ''1.0.0'' entry_B = Inr [(''1.0.0'', [entry_B, entry_A]), (''2.0.0'', [entry_B])]"
    by (simp add: merge_def Let_def object_eval sample_keys sample_entries)
  from merge_idempotent [where log = "[(''2.0.0'', [entry_B]), (''1.0.0'', [entry_A])]"
         and v = "''1.0.0''" and r = entry_B, THEN conjunct2, THEN mp, OF r] r m
  show ?thesis by auto
qed

text \<open>
  C7, as the code has it. The merge tells two entries apart by their \<^verbatim>\<open>JSON.stringify\<close>
  texts, in which the keys of \<^verbatim>\<open>executables\<close> come in their order. If no bucket of the
  log holds two entries with the same text, and the version is a key of the log or is
  not the name of an inherited member, the merge returns a log of which no bucket holds
  two entries with the same text.
\<close>

theorem merge_keeps_buckets_free_of_duplicates:
  assumes "no_equal_texts log" and "bucket_readable log v"
  shows "\<exists>newLog. merge log v r = Inr newLog \<and> no_equal_texts newLog"
proof -
  let ?L = "js_spread [] log"
  have o: "js_ordered ?L"
    by (rule js_ordered_spread) (simp add: js_ordered_def)
  have sub: "set ?L \<subseteq> set log"
    using set_js_spread_subset [of "[]" log] by simp
  have t: "no_equal_texts ?L"
    using assms(1) sub by (auto simp: no_equal_texts_def)
  from merge_returns [OF assms(2), of r] obtain newLog where m: "merge log v r = Inr newLog"
    by blast
  then have "merge ?L v r = Inr newLog" by (simp add: merge_copy [symmetric])
  with o have "no_equal_texts newLog" using t by (rule merge_keeps_distinct_ordered)
  with m show ?thesis by blast
qed

theorem merge_keeps_buckets_free_of_duplicates_witness:
  "no_equal_texts [(''2.0.0'', [entry_B]), (''1.0.0'', [entry_A])]
   \<and> bucket_readable [(''2.0.0'', [entry_B]), (''1.0.0'', [entry_A])] ''1.0.0''
   \<and> merge [(''2.0.0'', [entry_B]), (''1.0.0'', [entry_A])] ''1.0.0'' entry_B
       = Inr [(''1.0.0'', [entry_B, entry_A]), (''2.0.0'', [entry_B])]
   \<and> no_equal_texts [(''1.0.0'', [entry_B, entry_A]), (''2.0.0'', [entry_B])]"
proof -
  let ?L = "[(''2.0.0'', [entry_B]), (''1.0.0'', [entry_A])]"
  have t: "no_equal_texts ?L" by (simp add: no_equal_texts_def)
  have r: "bucket_readable ?L ''1.0.0''" by (simp add: bucket_readable_def)
  have m: "merge ?L ''1.0.0'' entry_B = Inr [(''1.0.0'', [entry_B, entry_A]), (''2.0.0'', [entry_B])]"
    by (simp add: merge_def Let_def object_eval sample_keys sample_entries)
  from merge_keeps_buckets_free_of_duplicates [OF t r, of entry_B] t r m
  show ?thesis by auto
qed

text \<open>
  C7 as stated fails, with the equality of build records that the specification speaks
  of. The one bucket of the log holds one record, so no bucket holds two equal records.
  The new record has the same platform and the same executables as a map, the keys in
  the other order; the merge adds it, and the bucket of the returned log holds two equal
  records.
\<close>

theorem merge_puts_equal_records_in_one_bucket:
  "no_equal_records [(''1.0.0'', [entry_node_npm])]
   \<and> merge [(''1.0.0'', [entry_node_npm])] ''1.0.0'' entry_npm_node
       = Inr [(''1.0.0'', [entry_npm_node, entry_node_npm])]
   \<and> \<not> no_equal_records [(''1.0.0'', [entry_npm_node, entry_node_npm])]"
proof -
  have 1: "no_equal_records [(''1.0.0'', [entry_node_npm])]"
    by (simp add: no_equal_records_def)
  have 2: "merge [(''1.0.0'', [entry_node_npm])] ''1.0.0'' entry_npm_node
       = Inr [(''1.0.0'', [entry_npm_node, entry_node_npm])]"
    by (simp add: merge_def Let_def object_eval sample_keys sample_entries)
  have "same_record entry_npm_node entry_node_npm"
    by (auto simp: same_record_def same_properties_def entry_node_npm_def entry_npm_node_def
          versionEntry_of_def get_prop_def)
  then have 3: "\<not> no_equal_records [(''1.0.0'', [entry_npm_node, entry_node_npm])]"
    by (simp add: no_equal_records_def)
  from 1 2 3 show ?thesis by blast
qed



text \<open>
  C9, as the code has it. The equality used for the dedup is the equality of the
  \<^verbatim>\<open>JSON.stringify\<close> texts, and that text lists the keys in their order. For a version
  that is a key of the log or is not the name of an inherited member, the merge returns
  a log, and the bucket of \<open>v\<close> stays as it is exactly when one of its entries has the
  serialized text of \<open>r\<close>; this is so in particular when \<open>r\<close> is in the bucket as the
  same JSON value, with its \<^verbatim>\<open>executables\<close> in the same order.
\<close>

theorem dedup_compares_serialized_text:
  assumes "js_ordered log" and "bucket_readable log v"
  shows "\<exists>newLog. merge log v r = Inr newLog
           \<and> (map_of newLog v = map_of log v \<longleftrightarrow> already_logged r (bucket_of log v))
           \<and> (r \<in> set (bucket_of log v) \<longrightarrow> map_of newLog v = map_of log v)"
proof -
  from merge_returns [OF assms(2), of r] obtain newLog where m: "merge log v r = Inr newLog"
    by blast
  note b = bucket_of_merge [OF assms(1) m]
  have a: "map_of newLog v = map_of log v" if dup: "already_logged r (bucket_of log v)"
    using b dup logged_bucket(1) [OF dup] by simp
  have n: "map_of newLog v \<noteq> map_of log v" if new: "\<not> already_logged r (bucket_of log v)"
    using b new by (cases "map_of log v") (auto simp: bucket_of_def)
  have c: "already_logged r (bucket_of log v)" if "r \<in> set (bucket_of log v)"
    using that by (auto simp: already_logged_def)
  from a n c m show ?thesis by blast
qed

theorem dedup_compares_serialized_text_witness:
  "js_ordered [(''1.0.0'', [entry_A])]
   \<and> bucket_readable [(''1.0.0'', [entry_A])] ''1.0.0''
   \<and> entry_A \<in> set (bucket_of [(''1.0.0'', [entry_A])] ''1.0.0'')
   \<and> already_logged entry_A (bucket_of [(''1.0.0'', [entry_A])] ''1.0.0'')
   \<and> merge [(''1.0.0'', [entry_A])] ''1.0.0'' entry_A = Inr [(''1.0.0'', [entry_A])]"
proof -
  let ?L = "[(''1.0.0'', [entry_A])]"
  have o: "js_ordered ?L" by (rule sample_ordered)
  have r: "bucket_readable ?L ''1.0.0''" by (simp add: bucket_readable_def)
  have i: "entry_A \<in> set (bucket_of ?L ''1.0.0'')" by (simp add: bucket_of_def)
  have m: "merge ?L ''1.0.0'' entry_A = Inr [(''1.0.0'', [entry_A])]"
    by (simp add: merge_def Let_def object_eval sample_keys)
  from dedup_compares_serialized_text [OF o r, of entry_A] o r i m show ?thesis
    by auto
qed

text \<open>
  C9 as stated fails. The bucket holds the entry with \<^verbatim>\<open>executables\<close>
  \<^verbatim>\<open>{"node": "v18.0.0", "npm": "8.6.0"}\<close>; the new entry has the same platform and the
  same executables as a map, written \<^verbatim>\<open>{"npm": "8.6.0", "node": "v18.0.0"}\<close>. The merge
  adds it.
\<close>

theorem dedup_is_sensitive_to_key_order:
  "same_record entry_npm_node entry_node_npm
   \<and> map_of [(''node'', JStr ''v18.0.0''), (''npm'', JStr ''8.6.0'')]
       = map_of [(''npm'', JStr ''8.6.0''), (''node'', JStr ''v18.0.0'')]
   \<and> merge [(''1.0.0'', [entry_node_npm])] ''1.0.0'' entry_npm_node
       = Inr [(''1.0.0'', [entry_npm_node, entry_node_npm])]"
proof -
  have "same_record entry_npm_node entry_node_npm"
    by (auto simp: same_record_def same_properties_def entry_node_npm_def entry_npm_node_def
          versionEntry_of_def get_prop_def)
  moreover have "map_of [(''node'', JStr ''v18.0.0''), (''npm'', JStr ''8.6.0'')]
          = map_of [(''npm'', JStr ''8.6.0''), (''node'', JStr ''v18.0.0'')]"
    by (auto simp: fun_eq_iff)
  moreover have "merge [(''1.0.0'', [entry_node_npm])] ''1.0.0'' entry_npm_node
       = Inr [(''1.0.0'', [entry_npm_node, entry_node_npm])]"
    by (simp add: merge_def Let_def object_eval sample_keys sample_entries)
  ultimately show ?thesis by blast
qed

end
